theory Spec2Isabelle
  imports Main "HOL-Library.Char_ord" "HOL-Library.List_Lexorder"
begin

section \<open>Keys\<close>

text \<open>
  A Go string is a sequence of bytes; \<open>len\<close> counts bytes. Keys and values are byte
  strings, ordered bytewise as the engine's cursors order them.
\<close>

type_synonym bytes = string

definition null_byte :: char where
  "null_byte = CHR 0x00"

text \<open>\<^verbatim>\<open>const nullKey = "\x00\x00"\<close>\<close>

definition nullKey :: bytes where
  "nullKey = [null_byte, null_byte]"

text \<open>
  \<^verbatim>\<open>strings.Count(key, "\x00")\<close>: the number of non-overlapping occurrences of a
  one-byte substring, that is the number of bytes equal to it.
\<close>

definition strings_Count :: "bytes \<Rightarrow> char \<Rightarrow> nat" where
  "strings_Count s c = length (filter (\<lambda>x. x = c) s)"

text \<open>\<^verbatim>\<open>func mustKey(key string) string\<close>, branch by branch.\<close>

definition mustKey :: "bytes \<Rightarrow> bytes" where
  "mustKey key =
     (if key = [] then nullKey
      else let nulls = strings_Count key null_byte in
        if nulls = length key then
          (if nulls \<ge> 2 then key @ [null_byte] else key)
        else key)"

text \<open>A key that is empty or made of null bytes only.\<close>

definition all_null :: "bytes \<Rightarrow> bool" where
  "all_null key = list_all (\<lambda>c. c = null_byte) key"


section \<open>Errors\<close>

text \<open>
  Go errors as values. The sentinels of the package (\<^verbatim>\<open>ErrKeyNotFound\<close>,
  \<^verbatim>\<open>EachBreak\<close>), the sentinels of the engine that the code meets, any other error
  (of the codec, of a callback), and the wrappers \<^verbatim>\<open>errors.Wrap(err, msg)\<close> and
  \<^verbatim>\<open>errors.Wrapf(err, format, arg)\<close>.
\<close>

datatype error =
    ErrKeyNotFound
  | EachBreak
  | ErrDatabaseNotOpen
  | ErrTxClosed
  | ErrTxNotWritable
  | ErrBucketNotFound
  | ErrBucketNameRequired
  | ErrKeyRequired
  | ErrIncompatibleValue
  | Failure string
  | Wrap error string
  | Wrapf error string bytes

text \<open>\<^verbatim>\<open>errors.Is(err, target)\<close>: the error itself or anything it wraps.\<close>

fun errors_Is :: "error \<Rightarrow> error \<Rightarrow> bool" where
  "errors_Is (Wrap e m) target = (Wrap e m = target \<or> errors_Is e target)"
| "errors_Is (Wrapf e m a) target = (Wrapf e m a = target \<or> errors_Is e target)"
| "errors_Is e target = (e = target)"

section \<open>The engine: nested buckets, transactions\<close>

text \<open>
  The embedded engine is an external dependency; the model follows its documented
  interface. A bucket holds entries in ascending key order, each a leaf value or a nested
  bucket; a cursor walks the entries in that order and reports a nested bucket with a nil
  value. A leaf's value is reported as non-nil, also when it is empty. Size limits on keys
  and values, I/O failures and the writer lock are not modelled.
\<close>

datatype entry = Leaf bytes | Sub "(bytes \<times> entry) list"

type_synonym bucket = "(bytes \<times> entry) list"

fun is_leaf :: "entry \<Rightarrow> bool" where
  "is_leaf (Leaf v) = True"
| "is_leaf (Sub b) = False"

text \<open>Insert an entry at its place in key order, replacing the entry of an equal key.\<close>

fun upsert :: "bytes \<Rightarrow> entry \<Rightarrow> bucket \<Rightarrow> bucket" where
  "upsert k e [] = [(k, e)]"
| "upsert k e ((k', e') # r) =
     (if k < k' then (k, e) # (k', e') # r
      else if k = k' then (k, e) # r
      else (k', e') # upsert k e r)"

definition remove_key :: "bytes \<Rightarrow> bucket \<Rightarrow> bucket" where
  "remove_key k b = filter (\<lambda>(k', e). k' \<noteq> k) b"

text \<open>The bucket reached from \<open>r\<close> by descending one nested bucket per segment.\<close>

fun resolve :: "bucket \<Rightarrow> bytes list \<Rightarrow> bucket option" where
  "resolve r [] = Some r"
| "resolve r (s # ss) =
     (case map_of r s of Some (Sub d) \<Rightarrow> resolve d ss | _ \<Rightarrow> None)"

text \<open>Replace the content of the bucket at a location.\<close>

fun put_at :: "bucket \<Rightarrow> bytes list \<Rightarrow> bucket \<Rightarrow> bucket" where
  "put_at r [] c = c"
| "put_at r (s # ss) c =
     (case map_of r s of Some (Sub d) \<Rightarrow> upsert s (Sub (put_at d ss c)) r | _ \<Rightarrow> r)"

text \<open>
  \<^verbatim>\<open>CreateBucketIfNotExists(name)\<close> on a bucket of a writable transaction: the content
  of the nested bucket, new or existing.
\<close>

definition createBucketIfNotExists :: "bucket \<Rightarrow> bytes \<Rightarrow> error + bucket" where
  "createBucketIfNotExists b name =
     (if name = [] then Inl ErrBucketNameRequired
      else case map_of b name of
             Some (Leaf v) \<Rightarrow> Inl ErrIncompatibleValue
           | Some (Sub d) \<Rightarrow> Inr d
           | None \<Rightarrow> Inr [])"

datatype tx_status = TxOpen | TxCommitted | TxRolledBack

record tx =
  tx_root :: bucket
  tx_writable :: bool
  tx_status :: tx_status

text \<open>
  The database: whether it is open, the committed root, and every transaction begun so
  far. A \<^verbatim>\<open>*bbolt.Tx\<close> is an index into \<open>db_txs\<close>; a \<^verbatim>\<open>*bbolt.Bucket\<close> is a
  transaction and the location of the bucket under its root.
\<close>

record kv =
  db_opened :: bool
  db_root :: bucket
  db_txs :: "tx list"

type_synonym bucket_ref = "nat \<times> bytes list"

definition tx_at :: "kv \<Rightarrow> nat \<Rightarrow> tx option" where
  "tx_at w t = (if t < length (db_txs w) then Some (db_txs w ! t) else None)"

definition set_tx :: "nat \<Rightarrow> tx \<Rightarrow> kv \<Rightarrow> kv" where
  "set_tx t x w = w\<lparr>db_txs := (db_txs w)[t := x]\<rparr>"

text \<open>\<^verbatim>\<open>db.Begin(writable)\<close>: a transaction on a snapshot of the committed root.\<close>

definition db_Begin :: "bool \<Rightarrow> kv \<Rightarrow> error + (nat \<times> kv)" where
  "db_Begin writable w =
     (if \<not> db_opened w then Inl ErrDatabaseNotOpen
      else Inr (length (db_txs w),
                w\<lparr>db_txs := db_txs w @
                  [\<lparr>tx_root = db_root w, tx_writable = writable, tx_status = TxOpen\<rparr>]\<rparr>))"

definition tx_Writable :: "nat \<Rightarrow> kv \<Rightarrow> bool" where
  "tx_Writable t w = (case tx_at w t of Some x \<Rightarrow> tx_writable x | None \<Rightarrow> False)"

definition tx_Commit :: "nat \<Rightarrow> kv \<Rightarrow> error option \<times> kv" where
  "tx_Commit t w =
     (case tx_at w t of
        None \<Rightarrow> (Some ErrTxClosed, w)
      | Some x \<Rightarrow>
          if tx_status x \<noteq> TxOpen then (Some ErrTxClosed, w)
          else if \<not> tx_writable x then (Some ErrTxNotWritable, w)
          else (None, (set_tx t (x\<lparr>tx_status := TxCommitted\<rparr>) w)\<lparr>db_root := tx_root x\<rparr>))"

definition tx_Rollback :: "nat \<Rightarrow> kv \<Rightarrow> error option \<times> kv" where
  "tx_Rollback t w =
     (case tx_at w t of
        None \<Rightarrow> (Some ErrTxClosed, w)
      | Some x \<Rightarrow>
          if tx_status x \<noteq> TxOpen then (Some ErrTxClosed, w)
          else (None, set_tx t (x\<lparr>tx_status := TxRolledBack\<rparr>) w))"

text \<open>
  The operations of a bucket handle. A handle whose transaction is closed, or whose
  bucket has been deleted, is not valid in the engine; the model answers with an error
  (nil for \<open>Get\<close>).
\<close>

definition get_leaf :: "bucket \<Rightarrow> bytes \<Rightarrow> bytes option" where
  "get_leaf b k = (case map_of b k of Some (Leaf v) \<Rightarrow> Some v | _ \<Rightarrow> None)"

definition Bucket_Get :: "bucket_ref \<Rightarrow> bytes \<Rightarrow> kv \<Rightarrow> bytes option" where
  "Bucket_Get b k w =
     (case tx_at w (fst b) of
        None \<Rightarrow> None
      | Some x \<Rightarrow> (case resolve (tx_root x) (snd b) of
                     None \<Rightarrow> None
                   | Some c \<Rightarrow> get_leaf c k))"

text \<open>
  A write through a handle: the checks every writing operation of the engine makes, then
  the change \<open>f\<close> to the bucket's content.
\<close>

definition Bucket_write :: "bucket_ref \<Rightarrow> (bucket \<Rightarrow> error + bucket) \<Rightarrow> kv \<Rightarrow> error option \<times> kv" where
  "Bucket_write b f w =
     (case tx_at w (fst b) of
        None \<Rightarrow> (Some ErrTxClosed, w)
      | Some x \<Rightarrow>
          if tx_status x \<noteq> TxOpen then (Some ErrTxClosed, w)
          else if \<not> tx_writable x then (Some ErrTxNotWritable, w)
          else (case resolve (tx_root x) (snd b) of
                  None \<Rightarrow> (Some ErrBucketNotFound, w)
                | Some c \<Rightarrow>
                    (case f c of
                       Inl err \<Rightarrow> (Some err, w)
                     | Inr c' \<Rightarrow>
                         (None, set_tx (fst b) (x\<lparr>tx_root := put_at (tx_root x) (snd b) c'\<rparr>) w))))"

definition Bucket_Put :: "bucket_ref \<Rightarrow> bytes \<Rightarrow> bytes \<Rightarrow> kv \<Rightarrow> error option \<times> kv" where
  "Bucket_Put b k v w =
     Bucket_write b
       (\<lambda>c. if k = [] then Inl ErrKeyRequired
            else case map_of c k of
                   Some (Sub d) \<Rightarrow> Inl ErrIncompatibleValue
                 | _ \<Rightarrow> Inr (upsert k (Leaf v) c)) w"

definition Bucket_Delete :: "bucket_ref \<Rightarrow> bytes \<Rightarrow> kv \<Rightarrow> error option \<times> kv" where
  "Bucket_Delete b k w =
     Bucket_write b
       (\<lambda>c. case map_of c k of
               None \<Rightarrow> Inr c
             | Some (Sub d) \<Rightarrow> Inl ErrIncompatibleValue
             | Some (Leaf v) \<Rightarrow> Inr (remove_key k c)) w"

definition Bucket_DeleteBucket :: "bucket_ref \<Rightarrow> bytes \<Rightarrow> kv \<Rightarrow> error option \<times> kv" where
  "Bucket_DeleteBucket b k w =
     Bucket_write b
       (\<lambda>c. case map_of c k of
               None \<Rightarrow> Inl ErrBucketNotFound
             | Some (Leaf v) \<Rightarrow> Inl ErrIncompatibleValue
             | Some (Sub d) \<Rightarrow> Inr (remove_key k c)) w"

text \<open>
  A cursor over a bucket: the entries it meets from \<open>First\<close> by \<open>Next\<close>; from \<open>Last\<close> by
  \<open>Prev\<close> it meets them in reverse. \<open>Cursor.Delete\<close> removes the entry under the cursor,
  a leaf; the entries not yet met stay.
\<close>

definition Cursor_entries :: "bucket_ref \<Rightarrow> kv \<Rightarrow> (bytes \<times> entry) list" where
  "Cursor_entries b w =
     (case tx_at w (fst b) of
        None \<Rightarrow> []
      | Some x \<Rightarrow> (case resolve (tx_root x) (snd b) of None \<Rightarrow> [] | Some c \<Rightarrow> c))"

definition Cursor_Delete :: "bucket_ref \<Rightarrow> bytes \<Rightarrow> kv \<Rightarrow> error option \<times> kv" where
  "Cursor_Delete b k w =
     Bucket_write b
       (\<lambda>c. case map_of c k of
               Some (Sub d) \<Rightarrow> Inl ErrIncompatibleValue
             | _ \<Rightarrow> Inr (remove_key k c)) w"

section \<open>Paths\<close>

text \<open>
  Modelled from the spec: \<^verbatim>\<open>NodePath.Bucket\<close> and \<^verbatim>\<open>NodePath.BucketExists\<close> are
  called by the source but defined outside it. The spec: resolution walks the path
  segments from the root, descending one nested bucket per segment; the empty path denotes
  the root; on a write-capable transaction missing intermediate buckets are created
  transparently; on a read-only transaction a missing bucket is reported as bucket not
  found, never created. \<open>create_path\<close> is the walk on a writable transaction: the error,
  if any, and the root with the buckets created until then.
\<close>

fun create_path :: "bucket \<Rightarrow> bytes list \<Rightarrow> error option \<times> bucket" where
  "create_path r [] = (None, r)"
| "create_path r (s # ss) =
     (case createBucketIfNotExists r s of
        Inl err \<Rightarrow> (Some err, r)
      | Inr d \<Rightarrow> (case create_path d ss of (e, d') \<Rightarrow> (e, upsert s (Sub d') r)))"

text \<open>
  Modelled from the spec: \<^verbatim>\<open>NodePath.Bucket(tx)\<close>, the resolution of a path in a
  transaction: the walk that creates on a writable transaction, the lookup that reports a
  missing bucket on a read-only one.
\<close>

definition NodePath_Bucket :: "bytes list \<Rightarrow> nat \<Rightarrow> kv \<Rightarrow> (error + bucket_ref) \<times> kv" where
  "NodePath_Bucket p t w =
     (case tx_at w t of
        None \<Rightarrow> (Inl ErrTxClosed, w)
      | Some x \<Rightarrow>
          if tx_status x \<noteq> TxOpen then (Inl ErrTxClosed, w)
          else if tx_writable x then
            (case create_path (tx_root x) p of
               (Some err, r') \<Rightarrow> (Inl err, set_tx t (x\<lparr>tx_root := r'\<rparr>) w)
             | (None, r') \<Rightarrow> (Inr (t, p), set_tx t (x\<lparr>tx_root := r'\<rparr>) w))
          else (case resolve (tx_root x) p of
                  None \<Rightarrow> (Inl ErrBucketNotFound, w)
                | Some c \<Rightarrow> (Inr (t, p), w)))"

text \<open>
  Modelled from the spec: \<^verbatim>\<open>NodePath.BucketExists\<close>, the presence check behind
  \<open>Exists\<close>: the bucket if every segment names a nested bucket; nothing is created.
\<close>

definition NodePath_BucketExists :: "bytes list \<Rightarrow> nat \<Rightarrow> kv \<Rightarrow> bucket_ref option" where
  "NodePath_BucketExists p t w =
     (case tx_at w t of
        None \<Rightarrow> None
      | Some x \<Rightarrow> (case resolve (tx_root x) p of None \<Rightarrow> None | Some c \<Rightarrow> Some (t, p)))"

section \<open>Nodes and transactions\<close>

text \<open>
  \<^verbatim>\<open>type Node struct { kv *KV; txn *bbolt.Tx; buck *bbolt.Bucket; path NodePath }\<close>.
  The database behind \<open>kv\<close> is the state every operation takes and returns; the codec of
  \<open>kv\<close> is a parameter of the operations that use it.
\<close>

record node =
  txn :: "nat option"
  buck :: "bucket_ref option"
  path :: "bytes list"

text \<open>
  A callback \<^verbatim>\<open>func(n Node) error\<close> is a closure: it receives a copy of the Node, may
  change the variables it captured (the state \<open>'u\<close>) and may work on the database.
\<close>

type_synonym 'u callback = "node \<Rightarrow> 'u \<Rightarrow> kv \<Rightarrow> error option \<times> 'u \<times> kv"

text \<open>\<^verbatim>\<open>func (n *Node) bucket() (*bbolt.Bucket, error)\<close>\<close>

definition Node_bucket :: "node \<Rightarrow> kv \<Rightarrow> (error + bucket_ref) \<times> node \<times> kv" where
  "Node_bucket n w =
     (case buck n of
        Some b \<Rightarrow> (Inr b, n, w)
      | None \<Rightarrow>
          (case txn n of
             None \<Rightarrow> (Inl ErrTxClosed, n, w)
           | Some t \<Rightarrow>
               (case NodePath_Bucket (path n) t w of
                  (Inl err, w') \<Rightarrow>
                    if errors_Is err ErrBucketNotFound then (Inl ErrKeyNotFound, n, w')
                    else (Inl err, n, w')
                | (Inr b, w') \<Rightarrow> (Inr b, n\<lparr>buck := Some b\<rparr>, w'))))"

text \<open>
  \<^verbatim>\<open>func (n *Node) bucketExists() bool\<close>. It is called inside a transaction only; without
  one the source dereferences a nil transaction, and the model answers false.
\<close>

definition Node_bucketExists :: "node \<Rightarrow> kv \<Rightarrow> bool \<times> node" where
  "Node_bucketExists n w =
     (case buck n of
        Some b \<Rightarrow> (True, n)
      | None \<Rightarrow>
          (case txn n of
             None \<Rightarrow> (False, n)
           | Some t \<Rightarrow>
               (case NodePath_BucketExists (path n) t w of
                  Some b \<Rightarrow> (True, n\<lparr>buck := Some b\<rparr>)
                | None \<Rightarrow> (False, n))))"

text \<open>\<^verbatim>\<open>defer t.Rollback()\<close>: runs when \<open>doTx\<close> returns, its error dropped.\<close>

definition deferred_Rollback :: "nat \<Rightarrow> error option \<times> 'u \<times> kv \<Rightarrow> error option \<times> 'u \<times> kv" where
  "deferred_Rollback t r = (case r of (e, u, w) \<Rightarrow> (e, u, snd (tx_Rollback t w)))"

text \<open>
  \<^verbatim>\<open>func (n *Node) doTx(f func(n Node) error, writable bool) error\<close>. The bucket is
  resolved before \<open>f\<close> only on a writable transaction with a non-empty path; otherwise
  the Node goes to \<open>f\<close> as it is after \<open>Begin\<close>.
\<close>

definition doTx :: "node \<Rightarrow> 'u callback \<Rightarrow> bool \<Rightarrow> 'u \<Rightarrow> kv \<Rightarrow> error option \<times> 'u \<times> kv" where
  "doTx n f writable u w =
     (if txn n \<noteq> None then f n u w
      else case db_Begin writable w of
        Inl err \<Rightarrow> (Some (Wrap err ''failed to begin RO transaction''), u, w)
      | Inr (t, w1) \<Rightarrow>
          deferred_Rollback t
            (let n1 = n\<lparr>txn := Some t, buck := None\<rparr> in
             case (if length (path n1) > 0 \<and> writable then Node_bucket n1 w1
                   else (Inr (t, []), n1, w1)) of
               (Inl err, n2, w2) \<Rightarrow>
                 (Some (Wrap err ''failed to fetch bucket for existing path''), u, w2)
             | (Inr b, n2, w2) \<Rightarrow>
                 (case f n2 u w2 of
                    (Some err, u3, w3) \<Rightarrow> (Some err, u3, w3)
                  | (None, u3, w3) \<Rightarrow>
                      if writable then
                        (case tx_Commit t w3 of
                           (Some err, w4) \<Rightarrow>
                             (Some (Wrap err ''failed to commit to database''), u3, w4)
                         | (None, w4) \<Rightarrow> (None, u3, w4))
                      else (None, u3, w3))))"

text \<open>\<^verbatim>\<open>func (n Node) TxUpdate(f func(n Node) error) error\<close>\<close>

definition TxUpdate :: "node \<Rightarrow> 'u callback \<Rightarrow> 'u \<Rightarrow> kv \<Rightarrow> error option \<times> 'u \<times> kv" where
  "TxUpdate n f u w =
     (if (case txn n of Some t \<Rightarrow> \<not> tx_Writable t w | None \<Rightarrow> False)
      then (Some ErrTxNotWritable, u, w)
      else doTx n f True u w)"

text \<open>\<^verbatim>\<open>func (n Node) TxView(f func(n Node) error) error\<close>\<close>

definition TxView :: "node \<Rightarrow> 'u callback \<Rightarrow> 'u \<Rightarrow> kv \<Rightarrow> error option \<times> 'u \<times> kv" where
  "TxView n f u w = doTx n f False u w"

text \<open>
  \<^verbatim>\<open>func (n Node) FromPath(path NodePath) Node\<close>: the bucket is filled in and the error
  skipped. \<^verbatim>\<open>func (n Node) Node(names ...string) Node\<close> panics without names
  (\<open>None\<close>).
\<close>

definition FromPath :: "node \<Rightarrow> bytes list \<Rightarrow> kv \<Rightarrow> node \<times> kv" where
  "FromPath n p w =
     (case Node_bucket (n\<lparr>path := p, buck := None\<rparr>) w of (r, n', w') \<Rightarrow> (n', w'))"

definition Node_Node :: "node \<Rightarrow> bytes list \<Rightarrow> kv \<Rightarrow> (node \<times> kv) option" where
  "Node_Node n names w =
     (if length names = 0 then None else Some (FromPath n (path n @ names) w))"


section \<open>Operations of a Node\<close>

text \<open>
  The codec of the store is a parameter: \<open>marshal\<close> is \<^verbatim>\<open>n.kv.Marshal\<close>, and
  \<open>unmarshal\<close> is \<^verbatim>\<open>n.kv.Unmarshal(bytes, v)\<close>, which writes the object \<open>v\<close> points to
  (it returns the object as it leaves it).
\<close>

text \<open>\<^verbatim>\<open>func (n Node) SetIfNone(k string, v interface{}) error\<close>\<close>

definition SetIfNone_closure :: "bytes \<Rightarrow> bytes \<Rightarrow> unit callback" where
  "SetIfNone_closure k bs n u w =
     (case Node_bucket n w of
        (Inl err, n', w') \<Rightarrow> (Some err, u, w')
      | (Inr b, n', w') \<Rightarrow>
          if Bucket_Get b k w' \<noteq> None then (None, u, w')
          else (case Bucket_Put b k bs w' of (e, w'') \<Rightarrow> (e, u, w'')))"

definition SetIfNone :: "('v \<Rightarrow> error + bytes) \<Rightarrow> node \<Rightarrow> bytes \<Rightarrow> 'v \<Rightarrow> kv \<Rightarrow> error option \<times> kv" where
  "SetIfNone marshal n k v w =
     (case marshal v of
        Inl err \<Rightarrow> (Some (Wrap err ''Failed to marshal''), w)
      | Inr bs \<Rightarrow>
          (case TxUpdate n (SetIfNone_closure (mustKey k) bs) () w of (e, u, w') \<Rightarrow> (e, w')))"

text \<open>\<^verbatim>\<open>func (n Node) Set(k string, v interface{}) error\<close>\<close>

definition Set_closure :: "bytes \<Rightarrow> bytes \<Rightarrow> unit callback" where
  "Set_closure k bs n u w =
     (case Node_bucket n w of
        (Inl err, n', w') \<Rightarrow> (Some err, u, w')
      | (Inr b, n', w') \<Rightarrow> (case Bucket_Put b k bs w' of (e, w'') \<Rightarrow> (e, u, w'')))"

definition Set :: "('v \<Rightarrow> error + bytes) \<Rightarrow> node \<Rightarrow> bytes \<Rightarrow> 'v \<Rightarrow> kv \<Rightarrow> error option \<times> kv" where
  "Set marshal n k v w =
     (case marshal v of
        Inl err \<Rightarrow> (Some (Wrap err ''failed to marshal''), w)
      | Inr bs \<Rightarrow>
          (case TxUpdate n (Set_closure (mustKey k) bs) () w of (e, u, w') \<Rightarrow> (e, w')))"

text \<open>
  \<^verbatim>\<open>func (n Node) Exists(k string) (exists bool)\<close>. The closure captures the result
  variable \<open>exists\<close>. The key is looked up as given.
\<close>

definition Exists_closure :: "bytes \<Rightarrow> bool callback" where
  "Exists_closure k n exists w =
     (case Node_bucketExists n w of
        (False, n') \<Rightarrow> (None, exists, w)
      | (True, n') \<Rightarrow>
          (case Node_bucket n' w of
             (Inl err, n'', w') \<Rightarrow> (Some err, exists, w')
           | (Inr b, n'', w') \<Rightarrow> (None, k = [] \<or> Bucket_Get b k w' \<noteq> None, w')))"

definition Exists :: "node \<Rightarrow> bytes \<Rightarrow> kv \<Rightarrow> bool \<times> kv" where
  "Exists n k w =
     (case TxView n (Exists_closure k) False w of
        (err, exists, w') \<Rightarrow> (err = None \<and> exists, w'))"

text \<open>\<^verbatim>\<open>func (n Node) Get(k string, v interface{}) error\<close>; the state is the object \<open>v\<close>.\<close>

definition Get_closure :: "(bytes \<Rightarrow> 'v \<Rightarrow> error option \<times> 'v) \<Rightarrow> bytes \<Rightarrow> 'v callback" where
  "Get_closure unmarshal k n v w =
     (case Node_bucket n w of
        (Inl err, n', w') \<Rightarrow> (Some err, v, w')
      | (Inr b, n', w') \<Rightarrow>
          (case Bucket_Get b k w' of
             None \<Rightarrow> (Some ErrKeyNotFound, v, w')
           | Some bs \<Rightarrow>
               (case unmarshal bs v of
                  (Some err, v') \<Rightarrow> (Some (Wrap err ''failed to unmarshal''), v', w')
                | (None, v') \<Rightarrow> (None, v', w'))))"

definition Get :: "(bytes \<Rightarrow> 'v \<Rightarrow> error option \<times> 'v) \<Rightarrow> node \<Rightarrow> bytes \<Rightarrow> 'v \<Rightarrow> kv \<Rightarrow> error option \<times> 'v \<times> kv" where
  "Get unmarshal n k v w = TxView n (Get_closure unmarshal (mustKey k)) v w"

text \<open>\<^verbatim>\<open>func (n Node) Delete(k string) error\<close>\<close>

definition Delete_closure :: "bytes \<Rightarrow> unit callback" where
  "Delete_closure k n u w =
     (case Node_bucket n w of
        (Inl err, n', w') \<Rightarrow>
          if errors_Is err ErrKeyNotFound then (None, u, w') else (Some err, u, w')
      | (Inr b, n', w') \<Rightarrow> (case Bucket_Delete b k w' of (e, w'') \<Rightarrow> (e, u, w'')))"

definition Delete :: "node \<Rightarrow> bytes \<Rightarrow> kv \<Rightarrow> error option \<times> kv" where
  "Delete n k w =
     (case TxUpdate n (Delete_closure (mustKey k)) () w of (e, u, w') \<Rightarrow> (e, w'))"

text \<open>
  \<^verbatim>\<open>func (n Node) DropExceptLast(last int) error\<close>. The first loop walks the cursor from
  the last entry backward over \<open>es\<close>, the entries in reverse; the second deletes the
  collected buckets, dropping the errors. The Go \<open>int\<close> counters here and below are
  unbounded integers: \<open>last\<close> is only decremented while positive, and a count of entries
  stays far below the range of \<open>int\<close>.
\<close>

fun DropExceptLast_loop ::
  "bucket_ref \<Rightarrow> (bytes \<times> entry) list \<Rightarrow> int \<Rightarrow> bytes list \<Rightarrow> error option \<Rightarrow> kv
     \<Rightarrow> bytes list \<times> error option \<times> kv" where
  "DropExceptLast_loop b [] last' buckets lastError w = (buckets, lastError, w)"
| "DropExceptLast_loop b ((k, v) # es) last' buckets lastError w =
     (if last' > 0 then DropExceptLast_loop b es (last' - 1) buckets lastError w
      else if \<not> is_leaf v then DropExceptLast_loop b es last' (buckets @ [k]) lastError w
      else (case Cursor_Delete b k w of
              (Some err, w') \<Rightarrow> DropExceptLast_loop b es last' buckets (Some err) w'
            | (None, w') \<Rightarrow> DropExceptLast_loop b es last' buckets lastError w'))"

fun DeleteBucket_loop :: "bucket_ref \<Rightarrow> bytes list \<Rightarrow> kv \<Rightarrow> kv" where
  "DeleteBucket_loop b [] w = w"
| "DeleteBucket_loop b (k # ks) w = DeleteBucket_loop b ks (snd (Bucket_DeleteBucket b k w))"

definition DropExceptLast_closure :: "int \<Rightarrow> unit callback" where
  "DropExceptLast_closure last' n u w =
     (case Node_bucket n w of
        (Inl err, n', w') \<Rightarrow> (Some err, u, w')
      | (Inr b, n', w') \<Rightarrow>
          (case DropExceptLast_loop b (rev (Cursor_entries b w')) last' [] None w' of
             (buckets, lastError, w'') \<Rightarrow> (lastError, u, DeleteBucket_loop b buckets w'')))"

definition DropExceptLast :: "node \<Rightarrow> int \<Rightarrow> kv \<Rightarrow> error option \<times> kv" where
  "DropExceptLast n last' w =
     (case TxUpdate n (DropExceptLast_closure last') () w of (e, u, w') \<Rightarrow> (e, w'))"

text \<open>
  \<^verbatim>\<open>func (n Node) Length(prefix string) (int, error)\<close>. The closure captures \<open>length\<close>;
  the count returned is the one the closure leaves. The prefix is not used.
\<close>

fun Length_loop :: "(bytes \<times> entry) list \<Rightarrow> int \<Rightarrow> int" where
  "Length_loop [] len = len"
| "Length_loop ((k, v) # es) len = Length_loop es (len + 1)"

definition Length_closure :: "int callback" where
  "Length_closure n len w =
     (case Node_bucket n w of
        (Inl err, n', w') \<Rightarrow>
          if errors_Is err ErrKeyNotFound then (None, len, w') else (Some err, len, w')
      | (Inr b, n', w') \<Rightarrow> (None, Length_loop (Cursor_entries b w') len, w'))"

definition Length :: "node \<Rightarrow> bytes \<Rightarrow> kv \<Rightarrow> (int \<times> error option) \<times> kv" where
  "Length n prefix w =
     (case TxView n Length_closure 0 w of (e, len, w') \<Rightarrow> ((len, e), w'))"

text \<open>
  \<^verbatim>\<open>func (n Node) Each(v interface{}, prefix string, fn func(k string, l int) error) error\<close>.
  The callback \<open>fn\<close> is a closure over the object \<open>v\<close> and its own variables \<open>'u\<close>.
  The first loop counts the entries with a non-nil value; the second visits them.
\<close>

fun Each_count :: "(bytes \<times> entry) list \<Rightarrow> int \<Rightarrow> int" where
  "Each_count [] len = len"
| "Each_count ((k, b) # es) len =
     Each_count es (if is_leaf b then len + 1 else len)"

fun Each_loop ::
  "(bytes \<Rightarrow> 'v \<Rightarrow> error option \<times> 'v) \<Rightarrow> (bytes \<Rightarrow> int \<Rightarrow> 'v \<times> 'u \<Rightarrow> error option \<times> 'v \<times> 'u)
     \<Rightarrow> int \<Rightarrow> (bytes \<times> entry) list \<Rightarrow> 'v \<times> 'u \<Rightarrow> error option \<times> 'v \<times> 'u" where
  "Each_loop unmarshal fn len [] s = (None, s)"
| "Each_loop unmarshal fn len ((k, Sub d) # es) s = Each_loop unmarshal fn len es s"
| "Each_loop unmarshal fn len ((k, Leaf b) # es) s =
     (case unmarshal b (fst s) of
        (Some err, v') \<Rightarrow> (Some (Wrapf err ''failed to unmarshal %q'' k), v', snd s)
      | (None, v') \<Rightarrow>
          (case fn k len (v', snd s) of
             (Some err, s') \<Rightarrow> if err = EachBreak then (None, s') else (Some err, s')
           | (None, s') \<Rightarrow> Each_loop unmarshal fn len es s'))"

definition Each_closure ::
  "(bytes \<Rightarrow> 'v \<Rightarrow> error option \<times> 'v) \<Rightarrow> (bytes \<Rightarrow> int \<Rightarrow> 'v \<times> 'u \<Rightarrow> error option \<times> 'v \<times> 'u)
     \<Rightarrow> ('v \<times> 'u) callback" where
  "Each_closure unmarshal fn n s w =
     (case Node_bucket n w of
        (Inl err, n', w') \<Rightarrow>
          if errors_Is err ErrKeyNotFound then (None, s, w') else (Some err, s, w')
      | (Inr b, n', w') \<Rightarrow>
          (let len = Each_count (Cursor_entries b w') 0 in
           case Each_loop unmarshal fn len (Cursor_entries b w') s of
             (e, s') \<Rightarrow> (e, s', w')))"

definition Each ::
  "(bytes \<Rightarrow> 'v \<Rightarrow> error option \<times> 'v) \<Rightarrow> node \<Rightarrow> bytes
     \<Rightarrow> (bytes \<Rightarrow> int \<Rightarrow> 'v \<times> 'u \<Rightarrow> error option \<times> 'v \<times> 'u) \<Rightarrow> 'v \<times> 'u \<Rightarrow> kv
     \<Rightarrow> error option \<times> ('v \<times> 'u) \<times> kv" where
  "Each unmarshal n prefix fn s w = TxView n (Each_closure unmarshal fn) s w"

text \<open>
  \<^verbatim>\<open>func (n Node) EachKey(prefix string, fn func(k string, l int) error) error\<close>: every
  entry is counted and visited, nested buckets too.
\<close>

fun EachKey_loop ::
  "(bytes \<Rightarrow> int \<Rightarrow> 'u \<Rightarrow> error option \<times> 'u) \<Rightarrow> int \<Rightarrow> (bytes \<times> entry) list \<Rightarrow> 'u
     \<Rightarrow> error option \<times> 'u" where
  "EachKey_loop fn len [] s = (None, s)"
| "EachKey_loop fn len ((k, v) # es) s =
     (case fn k len s of
        (Some err, s') \<Rightarrow> if err = EachBreak then (None, s') else (Some err, s')
      | (None, s') \<Rightarrow> EachKey_loop fn len es s')"

definition EachKey_closure :: "(bytes \<Rightarrow> int \<Rightarrow> 'u \<Rightarrow> error option \<times> 'u) \<Rightarrow> 'u callback" where
  "EachKey_closure fn n s w =
     (case Node_bucket n w of
        (Inl err, n', w') \<Rightarrow>
          if errors_Is err ErrKeyNotFound then (None, s, w') else (Some err, s, w')
      | (Inr b, n', w') \<Rightarrow>
          (let len = Length_loop (Cursor_entries b w') 0 in
           case EachKey_loop fn len (Cursor_entries b w') s of
             (e, s') \<Rightarrow> (e, s', w')))"

definition EachKey ::
  "node \<Rightarrow> bytes \<Rightarrow> (bytes \<Rightarrow> int \<Rightarrow> 'u \<Rightarrow> error option \<times> 'u) \<Rightarrow> 'u \<Rightarrow> kv
     \<Rightarrow> error option \<times> 'u \<times> kv" where
  "EachKey n prefix fn s w = TxView n (EachKey_closure fn) s w"


section \<open>Notions the properties are stated with\<close>

text \<open>
  The engine keeps the keys of a bucket distinct, in ascending order and non-empty, in
  every nested bucket.
\<close>

fun wf_entry :: "entry \<Rightarrow> bool" where
  "wf_entry (Leaf v) = True"
| "wf_entry (Sub b) =
     (sorted_wrt (<) (map fst b) \<and> [] \<notin> set (map fst b) \<and> (\<forall>e \<in> set (map snd b). wf_entry e))"

definition wf_bucket :: "bucket \<Rightarrow> bool" where
  "wf_bucket b = wf_entry (Sub b)"

text \<open>The database after one more transaction, in the state \<open>x\<close>, was begun.\<close>

definition with_tx :: "kv \<Rightarrow> tx \<Rightarrow> kv" where
  "with_tx w x = w\<lparr>db_txs := db_txs w @ [x]\<rparr>"

text \<open>The leaf entries of a bucket, in cursor order.\<close>

definition leaves :: "bucket \<Rightarrow> (bytes \<times> entry) list" where
  "leaves b = filter (\<lambda>(k, e). is_leaf e) b"

text \<open>
  A callback of \<open>Each\<close> that keeps a log: it runs \<open>fn\<close> and appends the key, the count
  and the result of the invocation to a list it captures.
\<close>

definition logging ::
  "(bytes \<Rightarrow> int \<Rightarrow> 'v \<times> 'u \<Rightarrow> error option \<times> 'v \<times> 'u)
     \<Rightarrow> bytes \<Rightarrow> int \<Rightarrow> 'v \<times> 'u \<times> (bytes \<times> int \<times> error option) list
     \<Rightarrow> error option \<times> 'v \<times> 'u \<times> (bytes \<times> int \<times> error option) list" where
  "logging fn k l s =
     (case s of (v, u, log) \<Rightarrow>
        (case fn k l (v, u) of (e, v', u') \<Rightarrow> (e, v', u', log @ [(k, l, e)])))"

text \<open>A callback of a transaction that counts its invocations and does nothing else.\<close>

definition counting :: "nat callback" where
  "counting n u w = (None, Suc u, w)"


text \<open>A callback of a transaction that fails with the given error and does nothing else.\<close>

definition failing :: "error \<Rightarrow> nat callback" where
  "failing err n u w = (Some err, u, w)"

text \<open>
  Sample data: a Node on the path \<open>rooms\<close> without a transaction, an open database with
  no bucket, and one whose bucket \<open>rooms\<close> holds the keys \<open>a\<close>, \<open>b\<close> and \<open>c\<close>.
\<close>

definition rooms_node :: node where
  "rooms_node = \<lparr>txn = None, buck = None, path = [''rooms'']\<rparr>"

definition empty_db :: kv where
  "empty_db = \<lparr>db_opened = True, db_root = [], db_txs = []\<rparr>"

definition abc_db :: kv where
  "abc_db =
     \<lparr>db_opened = True,
        db_root = [(''rooms'', Sub [(''a'', Leaf ''1''), (''b'', Leaf ''2''), (''c'', Leaf ''3'')])],
        db_txs = []\<rparr>"

section \<open>Key sanitisation\<close>

lemma strings_Count_le: "strings_Count s c \<le> length s"
  by (simp add: strings_Count_def)

lemma strings_Count_full: "strings_Count s c = length s \<longleftrightarrow> list_all (\<lambda>x. x = c) s"
proof (induction s)
  case Nil
  show ?case by (simp add: strings_Count_def)
next
  case (Cons a s)
  have le: "length (filter (\<lambda>x. x = c) s) \<le> length s" by simp
  show ?case
  proof (cases "a = c")
    case True
    with Cons show ?thesis by (simp add: strings_Count_def)
  next
    case False
    from le have "length (filter (\<lambda>x. x = c) s) \<noteq> Suc (length s)" by arith
    with False show ?thesis by (simp add: strings_Count_def)
  qed
qed

lemma mustKey_alt:
  "mustKey key =
     (if key = [] then nullKey
      else if all_null key \<and> length key \<ge> 2 then key @ [null_byte] else key)"
proof (cases "all_null key")
  case True
  then have "strings_Count key null_byte = length key"
    by (simp add: strings_Count_full all_null_def)
  with True show ?thesis by (simp add: mustKey_def Let_def)
next
  case False
  then have "strings_Count key null_byte \<noteq> length key"
    by (simp add: strings_Count_full all_null_def)
  with False show ?thesis by (simp add: mustKey_def Let_def)
qed

lemma all_null_append: "all_null (a @ b) \<longleftrightarrow> all_null a \<and> all_null b"
  by (simp add: all_null_def)

lemma all_null_nullKey: "all_null nullKey"
  by (simp add: all_null_def nullKey_def)

lemma mustKey_not_empty: "mustKey key \<noteq> []"
  by (simp add: mustKey_alt nullKey_def)

lemma mustKey_fixed:
  "key \<noteq> [] \<Longrightarrow> \<not> (all_null key \<and> length key \<ge> 2) \<Longrightarrow> mustKey key = key"
  by (simp add: mustKey_alt)

lemma mustKey_never_nullKey: "key \<noteq> [] \<Longrightarrow> mustKey key \<noteq> nullKey"
proof (cases "all_null key \<and> length key \<ge> 2")
  case True
  assume "key \<noteq> []"
  with True have "length (mustKey key) = length key + 1" by (simp add: mustKey_alt)
  with True show ?thesis by (auto simp: nullKey_def)
next
  case False
  assume ne: "key \<noteq> []"
  with False have eq: "mustKey key = key" by (simp add: mustKey_alt)
  show ?thesis
  proof
    assume "mustKey key = nullKey"
    with eq have "key = nullKey" by simp
    then have "all_null key \<and> length key \<ge> 2"
      by (simp add: all_null_def nullKey_def)
    with False show False by simp
  qed
qed

lemma mustKey_twice:
  "mustKey (mustKey key) =
     (if key = [] \<or> (all_null key \<and> length key \<ge> 2) then mustKey key @ [null_byte]
      else mustKey key)"
proof (cases "key = []")
  case True
  then show ?thesis by (simp add: mustKey_alt nullKey_def all_null_def)
next
  case ne: False
  show ?thesis
  proof (cases "all_null key \<and> length key \<ge> 2")
    case True
    with ne show ?thesis by (simp add: mustKey_alt all_null_append all_null_def)
  next
    case False
    with ne show ?thesis by (simp add: mustKey_alt)
  qed
qed

section \<open>Buckets and paths\<close>

lemma map_of_upsert: "map_of (upsert k e b) k' = (if k' = k then Some e else map_of b k')"
  by (induction b) auto

lemma upsert_upsert: "upsert k e (upsert k e' b) = upsert k e b"
  by (induction b) auto

lemma upsert_same:
  "sorted_wrt (<) (map fst b) \<Longrightarrow> map_of b k = Some e \<Longrightarrow> upsert k e b = b"
proof (induction b)
  case Nil
  then show ?case by simp
next
  case (Cons a b)
  obtain k' e' where a: "a = (k', e')" by (cases a)
  show ?case
  proof (cases "k = k'")
    case True
    with Cons.prems a show ?thesis by simp
  next
    case False
    with Cons.prems a have m: "map_of b k = Some e" by simp
    then have "(k, e) \<in> set b" by (rule map_of_SomeD)
    with Cons.prems a have "k' < k" by force
    with Cons a m False show ?thesis by simp
  qed
qed

lemma resolve_put_at:
  "resolve r h = Some c0 \<Longrightarrow> resolve (put_at r h c) h = Some c"
proof (induction h arbitrary: r)
  case Nil
  show ?case by simp
next
  case (Cons s ss)
  then show ?case
    by (auto simp: map_of_upsert split: option.splits entry.splits)
qed

lemma put_at_put_at: "put_at (put_at r h c1) h c2 = put_at r h c2"
proof (induction h arbitrary: r)
  case Nil
  show ?case by simp
next
  case (Cons s ss)
  then show ?case
    by (auto simp: map_of_upsert upsert_upsert split: option.splits entry.splits)
qed

lemma wf_bucket_sub:
  "wf_bucket r \<Longrightarrow> map_of r s = Some (Sub d) \<Longrightarrow> wf_bucket d"
proof -
  assume w: "wf_bucket r" and m: "map_of r s = Some (Sub d)"
  from m have "(s, Sub d) \<in> set r" by (rule map_of_SomeD)
  then have "Sub d \<in> set (map snd r)" by force
  moreover from w have "\<forall>e \<in> set (map snd r). wf_entry e" by (simp add: wf_bucket_def)
  ultimately have "wf_entry (Sub d)" by blast
  then show ?thesis by (simp add: wf_bucket_def)
qed

lemma wf_bucket_sorted: "wf_bucket r \<Longrightarrow> sorted_wrt (<) (map fst r)"
  by (simp add: wf_bucket_def)

lemma wf_bucket_key: "wf_bucket r \<Longrightarrow> map_of r s = Some e \<Longrightarrow> s \<noteq> []"
proof -
  assume w: "wf_bucket r" and m: "map_of r s = Some e"
  from m have "(s, e) \<in> set r" by (rule map_of_SomeD)
  then have "s \<in> set (map fst r)" by force
  moreover from w have "[] \<notin> set (map fst r)" by (simp add: wf_bucket_def)
  ultimately show ?thesis by blast
qed

lemma put_at_same:
  "wf_bucket r \<Longrightarrow> resolve r h = Some c \<Longrightarrow> put_at r h c = r"
proof (induction h arbitrary: r)
  case Nil
  then show ?case by simp
next
  case (Cons s ss)
  from Cons.prems obtain d where d: "map_of r s = Some (Sub d)" and r: "resolve d ss = Some c"
    by (auto split: option.splits entry.splits)
  from Cons.prems d have "wf_bucket d" by (auto intro: wf_bucket_sub)
  with Cons.IH r have "put_at d ss c = d" by simp
  with d Cons.prems show ?case by (simp add: upsert_same wf_bucket_sorted)
qed

lemma create_path_existing:
  "wf_bucket r \<Longrightarrow> resolve r p = Some c \<Longrightarrow> create_path r p = (None, r)"
proof (induction p arbitrary: r)
  case Nil
  then show ?case by simp
next
  case (Cons s ss)
  from Cons.prems obtain d where d: "map_of r s = Some (Sub d)" and r: "resolve d ss = Some c"
    by (auto split: option.splits entry.splits)
  from Cons.prems d have "wf_bucket d" by (auto intro: wf_bucket_sub)
  with Cons.IH r have "create_path d ss = (None, d)" by simp
  moreover have "s \<noteq> []" using wf_bucket_key [OF Cons.prems(1) d] .
  ultimately show ?case using d Cons.prems
    by (simp add: createBucketIfNotExists_def upsert_same wf_bucket_sorted)
qed

lemma resolve_empty: "resolve [] p = (if p = [] then Some [] else None)"
  by (cases p) simp_all

lemma create_path_resolves:
  "create_path r p = (None, r') \<Longrightarrow>
   resolve r' p = Some (case resolve r p of Some c \<Rightarrow> c | None \<Rightarrow> [])"
proof (induction p arbitrary: r r')
  case Nil
  then show ?case by simp
next
  case (Cons s ss)
  then show ?case
    by (auto simp: createBucketIfNotExists_def map_of_upsert resolve_empty
        split: if_splits option.splits entry.splits prod.splits sum.splits)
qed

lemma create_path_error:
  "create_path r p = (Some e, r') \<Longrightarrow> e = ErrBucketNameRequired \<or> e = ErrIncompatibleValue"
proof (induction p arbitrary: r r')
  case Nil
  then show ?case by simp
next
  case (Cons s ss)
  then show ?case
    by (auto simp: createBucketIfNotExists_def split: if_splits option.splits entry.splits prod.splits sum.splits)
qed

lemma keys_upsert: "set (map fst (upsert k e b)) = insert k (set (map fst b))"
proof (induction b)
  case Nil
  show ?case by simp
next
  case (Cons a b)
  obtain k' e' where a: "a = (k', e')" by (cases a)
  with Cons show ?case by (simp add: insert_commute)
qed

lemma set_upsert: "fst ` set (upsert k e b) = insert k (fst ` set b)"
  using keys_upsert [of k e b] by simp

lemma sorted_upsert:
  "sorted_wrt (<) (map fst b) \<Longrightarrow> sorted_wrt (<) (map fst (upsert k e b))"
proof (induction b)
  case Nil
  show ?case by simp
next
  case (Cons a b)
  obtain k' e' where a: "a = (k', e')" by (cases a)
  from Cons.prems a have gt: "\<forall>x \<in> fst ` set b. k' < x" and sb: "sorted_wrt (<) (map fst b)"
    by auto
  show ?case
  proof (cases "k < k'")
    case True
    with gt have "\<forall>x \<in> fst ` set b. k < x" by auto
    with True Cons.prems a show ?thesis by auto
  next
    case False
    show ?thesis
    proof (cases "k = k'")
      case True
      with Cons.prems a show ?thesis by auto
    next
      case ne: False
      with False have lt: "k' < k" by simp
      from gt lt have "\<forall>x \<in> fst ` set (upsert k e b). k' < x" by (simp add: set_upsert)
      with Cons.IH [OF sb] False ne a show ?thesis by auto
    qed
  qed
qed

lemma values_upsert: "set (map snd (upsert k e b)) \<subseteq> insert e (set (map snd b))"
proof (induction b)
  case Nil
  show ?case by simp
next
  case (Cons a b)
  obtain k' e' where a: "a = (k', e')" by (cases a)
  with Cons show ?case by auto
qed

lemma snd_set_upsert: "snd ` set (upsert k e b) \<subseteq> insert e (snd ` set b)"
  using values_upsert [of k e b] by simp

lemma wf_bucket_upsert:
  assumes "wf_bucket b" "wf_entry e" "k \<noteq> []"
  shows "wf_bucket (upsert k e b)"
proof -
  from assms have s: "sorted_wrt (<) (map fst (upsert k e b))"
    by (simp add: wf_bucket_def sorted_upsert)
  from assms have n: "[] \<notin> fst ` set (upsert k e b)"
    by (auto simp: wf_bucket_def set_upsert)
  from assms have "\<forall>x \<in> insert e (snd ` set b). wf_entry x"
    by (auto simp: wf_bucket_def)
  with snd_set_upsert [of k e b] have "\<forall>x \<in> snd ` set (upsert k e b). wf_entry x" by blast
  with s n show ?thesis by (simp add: wf_bucket_def)
qed

lemma wf_bucket_empty: "wf_bucket []"
  by (simp add: wf_bucket_def)

lemma create_path_wf:
  "wf_bucket r \<Longrightarrow> create_path r p = (e, r') \<Longrightarrow> wf_bucket r'"
proof (induction p arbitrary: r r' e)
  case Nil
  then show ?case by simp
next
  case (Cons s ss)
  show ?case
  proof (cases "createBucketIfNotExists r s")
    case (Inl err)
    with Cons.prems show ?thesis by simp
  next
    case (Inr d)
    obtain e' d' where cd: "create_path d ss = (e', d')" by (cases "create_path d ss")
    from Inr have ne: "s \<noteq> []"
      by (auto simp: createBucketIfNotExists_def split: if_splits)
    from Inr Cons.prems(1) have "wf_bucket d"
      by (auto simp: createBucketIfNotExists_def wf_bucket_empty
          split: if_splits option.splits entry.splits intro: wf_bucket_sub)
    with Cons.IH cd have "wf_bucket d'" by blast
    then have "wf_entry (Sub d')" by (simp add: wf_bucket_def)
    from wf_bucket_upsert [OF Cons.prems(1) this ne] Cons.prems(2) Inr cd
    show ?thesis by simp
  qed
qed

lemma leaves_upsert_Sub:
  "\<forall>v. map_of r s \<noteq> Some (Leaf v) \<Longrightarrow> leaves (upsert s (Sub d) r) = leaves r"
proof (induction r)
  case Nil
  show ?case by (simp add: leaves_def)
next
  case (Cons a r)
  obtain k e where a: "a = (k, e)" by (cases a)
  show ?case
  proof (cases "s = k")
    case True
    with Cons.prems a have "\<not> is_leaf e" by (cases e) simp_all
    with True a show ?thesis by (simp add: leaves_def)
  next
    case False
    with Cons.prems a have "\<forall>v. map_of r s \<noteq> Some (Leaf v)" by simp
    from Cons.IH [OF this] False a show ?thesis by (simp add: leaves_def)
  qed
qed

lemma create_path_keeps_leaves:
  "create_path r p = (None, r') \<Longrightarrow> resolve r q = Some c \<Longrightarrow>
   \<exists>c'. resolve r' q = Some c' \<and> leaves c' = leaves c"
proof (induction p arbitrary: r r' q c)
  case Nil
  then show ?case by simp
next
  case (Cons s ss)
  from Cons.prems(1) obtain d d' where cb: "createBucketIfNotExists r s = Inr d"
    and cd: "create_path d ss = (None, d')" and r': "r' = upsert s (Sub d') r"
    by (auto split: sum.splits prod.splits)
  from cb have noleaf: "\<forall>v. map_of r s \<noteq> Some (Leaf v)"
    by (auto simp: createBucketIfNotExists_def split: if_splits option.splits entry.splits)
  show ?case
  proof (cases q)
    case Nil
    with Cons.prems(2) r' noleaf show ?thesis by (simp add: leaves_upsert_Sub)
  next
    case q: (Cons s' qs)
    show ?thesis
    proof (cases "s' = s")
      case False
      with q Cons.prems(2) r' show ?thesis by (simp add: map_of_upsert)
    next
      case True
      with q Cons.prems(2) obtain d0 where m: "map_of r s = Some (Sub d0)"
        and rq: "resolve d0 qs = Some c"
        by (auto split: option.splits entry.splits)
      from cb m have "d = d0"
        by (auto simp: createBucketIfNotExists_def split: if_splits)
      with rq have "resolve d qs = Some c" by simp
      from Cons.IH [OF cd this] obtain c' where "resolve d' qs = Some c'" "leaves c' = leaves c"
        by blast
      with True q r' show ?thesis by (simp add: map_of_upsert)
    qed
  qed
qed

section \<open>Transactions of a fresh Node\<close>

lemma with_tx_fields [simp]:
  "db_root (with_tx w x) = db_root w"
  "db_opened (with_tx w x) = db_opened w"
  "db_txs (with_tx w x) = db_txs w @ [x]"
  by (simp_all add: with_tx_def)

lemma with_tx_root_update [simp]:
  "(with_tx w x)\<lparr>db_root := r\<rparr> = with_tx (w\<lparr>db_root := r\<rparr>) x"
  by (simp add: with_tx_def)

lemma tx_at_with_tx: "t = length (db_txs w) \<Longrightarrow> tx_at (with_tx w x) t = Some x"
  by (simp add: tx_at_def)

lemma set_tx_with_tx: "t = length (db_txs w) \<Longrightarrow> set_tx t y (with_tx w x) = with_tx w y"
  by (simp add: set_tx_def with_tx_def)

lemma db_Begin_open:
  "db_opened w \<Longrightarrow>
   db_Begin wr w =
     Inr (length (db_txs w),
          with_tx w \<lparr>tx_root = db_root w, tx_writable = wr, tx_status = TxOpen\<rparr>)"
  by (simp add: db_Begin_def with_tx_def)

lemma tx_Commit_with_tx:
  "t = length (db_txs w) \<Longrightarrow>
   tx_Commit t (with_tx w \<lparr>tx_root = r, tx_writable = True, tx_status = TxOpen\<rparr>) =
     (None, with_tx (w\<lparr>db_root := r\<rparr>) \<lparr>tx_root = r, tx_writable = True, tx_status = TxCommitted\<rparr>)"
  by (simp add: tx_Commit_def tx_at_with_tx set_tx_with_tx)

lemma tx_Rollback_open:
  "t = length (db_txs w) \<Longrightarrow>
   tx_Rollback t (with_tx w \<lparr>tx_root = r, tx_writable = wr, tx_status = TxOpen\<rparr>) =
     (None, with_tx w \<lparr>tx_root = r, tx_writable = wr, tx_status = TxRolledBack\<rparr>)"
  by (simp add: tx_Rollback_def tx_at_with_tx set_tx_with_tx)

lemma tx_Rollback_closed:
  "t = length (db_txs w) \<Longrightarrow> tx_status x \<noteq> TxOpen \<Longrightarrow>
   tx_Rollback t (with_tx w x) = (Some ErrTxClosed, with_tx w x)"
  by (simp add: tx_Rollback_def tx_at_with_tx)

lemma Bucket_write_with_tx:
  "t = length (db_txs w) \<Longrightarrow> resolve r h = Some c \<Longrightarrow>
   Bucket_write (t, h) g (with_tx w \<lparr>tx_root = r, tx_writable = True, tx_status = TxOpen\<rparr>) =
     (case g c of
        Inl err \<Rightarrow> (Some err, with_tx w \<lparr>tx_root = r, tx_writable = True, tx_status = TxOpen\<rparr>)
      | Inr c' \<Rightarrow> (None, with_tx w \<lparr>tx_root = put_at r h c', tx_writable = True, tx_status = TxOpen\<rparr>))"
  by (simp add: Bucket_write_def tx_at_with_tx set_tx_with_tx split: sum.splits)

lemma Bucket_Get_with_tx:
  "t = length (db_txs w) \<Longrightarrow> resolve (tx_root x) h = Some c \<Longrightarrow>
   Bucket_Get (t, h) k (with_tx w x) = get_leaf c k"
  by (simp add: Bucket_Get_def tx_at_with_tx)

lemma Cursor_entries_with_tx:
  "t = length (db_txs w) \<Longrightarrow> resolve (tx_root x) h = Some c \<Longrightarrow>
   Cursor_entries (t, h) (with_tx w x) = c"
  by (simp add: Cursor_entries_def tx_at_with_tx)

lemma errors_Is_create_path:
  "create_path r p = (Some e, r') \<Longrightarrow> \<not> errors_Is e ErrBucketNotFound \<and> \<not> errors_Is e ErrKeyNotFound"
  using create_path_error [of r p e r'] by auto

lemma Node_bucket_cached: "buck m = Some b \<Longrightarrow> Node_bucket m w = (Inr b, m, w)"
  by (simp add: Node_bucket_def)

lemma Node_bucket_rw:
  assumes "t = length (db_txs w)" "txn m = Some t" "buck m = None"
  shows "Node_bucket m (with_tx w \<lparr>tx_root = r, tx_writable = True, tx_status = TxOpen\<rparr>) =
     (case create_path r (path m) of
        (Some err, r') \<Rightarrow>
          (Inl err, m, with_tx w \<lparr>tx_root = r', tx_writable = True, tx_status = TxOpen\<rparr>)
      | (None, r') \<Rightarrow>
          (Inr (t, path m), m\<lparr>buck := Some (t, path m)\<rparr>,
           with_tx w \<lparr>tx_root = r', tx_writable = True, tx_status = TxOpen\<rparr>))"
proof (cases "create_path r (path m)")
  case (Pair e r')
  show ?thesis
  proof (cases e)
    case None
    with Pair assms show ?thesis
      by (simp add: Node_bucket_def NodePath_Bucket_def tx_at_with_tx set_tx_with_tx)
  next
    case (Some err)
    with Pair have "create_path r (path m) = (Some err, r')" by simp
    from errors_Is_create_path [OF this] Pair Some assms show ?thesis
      by (simp add: Node_bucket_def NodePath_Bucket_def tx_at_with_tx set_tx_with_tx)
  qed
qed

lemma Node_bucket_ro:
  assumes "t = length (db_txs w)" "txn m = Some t" "buck m = None"
  shows "Node_bucket m (with_tx w \<lparr>tx_root = r, tx_writable = False, tx_status = TxOpen\<rparr>) =
     (case resolve r (path m) of
        None \<Rightarrow>
          (Inl ErrKeyNotFound, m, with_tx w \<lparr>tx_root = r, tx_writable = False, tx_status = TxOpen\<rparr>)
      | Some c \<Rightarrow>
          (Inr (t, path m), m\<lparr>buck := Some (t, path m)\<rparr>,
           with_tx w \<lparr>tx_root = r, tx_writable = False, tx_status = TxOpen\<rparr>))"
  using assms
  by (simp add: Node_bucket_def NodePath_Bucket_def tx_at_with_tx split: option.splits)

text \<open>The node a callback of a fresh writable transaction receives.\<close>

lemma Node_bucket_in_update:
  assumes "t = length (db_txs w)"
  shows "Node_bucket (n\<lparr>txn := Some t, buck := (if path n = [] then None else Some (t, path n))\<rparr>)
           (with_tx w \<lparr>tx_root = r, tx_writable = True, tx_status = TxOpen\<rparr>) =
         (Inr (t, path n), n\<lparr>txn := Some t, buck := Some (t, path n)\<rparr>,
          with_tx w \<lparr>tx_root = r, tx_writable = True, tx_status = TxOpen\<rparr>)"
proof (cases "path n = []")
  case True
  with assms show ?thesis by (simp add: Node_bucket_rw)
next
  case False
  then show ?thesis by (simp add: Node_bucket_cached)
qed

lemma TxUpdate_fresh:
  assumes "txn n = None" "db_opened w"
  shows "TxUpdate n f u w =
     (case create_path (db_root w) (path n) of
        (Some err, r') \<Rightarrow>
          (Some (Wrap err ''failed to fetch bucket for existing path''), u,
           with_tx w \<lparr>tx_root = r', tx_writable = True, tx_status = TxRolledBack\<rparr>)
      | (None, r') \<Rightarrow>
          deferred_Rollback (length (db_txs w))
            (case f (n\<lparr>txn := Some (length (db_txs w)),
                       buck := (if path n = [] then None else Some (length (db_txs w), path n))\<rparr>) u
                    (with_tx w \<lparr>tx_root = r', tx_writable = True, tx_status = TxOpen\<rparr>) of
               (Some err, u3, w3) \<Rightarrow> (Some err, u3, w3)
             | (None, u3, w3) \<Rightarrow>
                 (case tx_Commit (length (db_txs w)) w3 of
                    (Some err, w4) \<Rightarrow> (Some (Wrap err ''failed to commit to database''), u3, w4)
                  | (None, w4) \<Rightarrow> (None, u3, w4))))"
proof (cases "path n = []")
  case True
  with assms show ?thesis
    by (simp add: TxUpdate_def doTx_def db_Begin_open split: prod.splits option.splits)
next
  case False
  show ?thesis
  proof (cases "create_path (db_root w) (path n)")
    case (Pair e r')
    with assms False show ?thesis
      by (cases e)
        (simp_all add: TxUpdate_def doTx_def db_Begin_open Node_bucket_rw
          deferred_Rollback_def tx_Rollback_open split: prod.splits option.splits)
  qed
qed

lemma TxUpdate_fresh_result:
  assumes "txn n = None" "db_opened w"
    and "create_path (db_root w) (path n) = (None, r')"
    and "f (n\<lparr>txn := Some (length (db_txs w)),
              buck := (if path n = [] then None else Some (length (db_txs w), path n))\<rparr>) u
           (with_tx w \<lparr>tx_root = r', tx_writable = True, tx_status = TxOpen\<rparr>) =
         (e, u', with_tx w \<lparr>tx_root = r'', tx_writable = True, tx_status = TxOpen\<rparr>)"
  shows "TxUpdate n f u w =
     (if e = None
      then (None, u', with_tx (w\<lparr>db_root := r''\<rparr>)
                        \<lparr>tx_root = r'', tx_writable = True, tx_status = TxCommitted\<rparr>)
      else (e, u', with_tx w \<lparr>tx_root = r'', tx_writable = True, tx_status = TxRolledBack\<rparr>))"
proof (cases e)
  case None
  with assms show ?thesis
    by (simp add: TxUpdate_fresh tx_Commit_with_tx deferred_Rollback_def tx_Rollback_closed)
next
  case (Some err)
  with assms show ?thesis
    by (simp add: TxUpdate_fresh deferred_Rollback_def tx_Rollback_open)
qed

lemma TxView_fresh:
  assumes "txn n = None" "db_opened w"
  shows "TxView n f u w =
     deferred_Rollback (length (db_txs w))
       (f (n\<lparr>txn := Some (length (db_txs w)), buck := None\<rparr>) u
          (with_tx w \<lparr>tx_root = db_root w, tx_writable = False, tx_status = TxOpen\<rparr>))"
  using assms
  by (simp add: TxView_def doTx_def db_Begin_open split: prod.splits option.splits)

lemma TxView_fresh_result:
  assumes "txn n = None" "db_opened w"
    and "f (n\<lparr>txn := Some (length (db_txs w)), buck := None\<rparr>) u
           (with_tx w \<lparr>tx_root = db_root w, tx_writable = False, tx_status = TxOpen\<rparr>) =
         (e, u', with_tx w \<lparr>tx_root = r'', tx_writable = False, tx_status = TxOpen\<rparr>)"
  shows "TxView n f u w =
     (e, u', with_tx w \<lparr>tx_root = r'', tx_writable = False, tx_status = TxRolledBack\<rparr>)"
  using assms by (simp add: TxView_fresh deferred_Rollback_def tx_Rollback_open)

text \<open>
  The closures of the writing operations, run in an open writable transaction on a node
  whose bucket resolves to the location \<open>p\<close>.
\<close>

lemma Set_closure_eval:
  assumes "Node_bucket m (with_tx w \<lparr>tx_root = r, tx_writable = True, tx_status = TxOpen\<rparr>) =
      (Inr (t, p), m', with_tx w \<lparr>tx_root = r, tx_writable = True, tx_status = TxOpen\<rparr>)"
    and "t = length (db_txs w)" "resolve r p = Some c" "k \<noteq> []"
  shows "Set_closure k bs m u
           (with_tx w \<lparr>tx_root = r, tx_writable = True, tx_status = TxOpen\<rparr>) =
     (case map_of c k of
        Some (Sub d) \<Rightarrow>
          (Some ErrIncompatibleValue, u,
           with_tx w \<lparr>tx_root = r, tx_writable = True, tx_status = TxOpen\<rparr>)
      | _ \<Rightarrow>
          (None, u, with_tx w \<lparr>tx_root = put_at r p (upsert k (Leaf bs) c),
                               tx_writable = True, tx_status = TxOpen\<rparr>))"
  using assms
  by (simp add: Set_closure_def Bucket_Put_def Bucket_write_with_tx
      split: option.splits entry.splits)

lemma SetIfNone_closure_eval:
  assumes "Node_bucket m (with_tx w \<lparr>tx_root = r, tx_writable = True, tx_status = TxOpen\<rparr>) =
      (Inr (t, p), m', with_tx w \<lparr>tx_root = r, tx_writable = True, tx_status = TxOpen\<rparr>)"
    and "t = length (db_txs w)" "resolve r p = Some c" "k \<noteq> []"
  shows "SetIfNone_closure k bs m u
           (with_tx w \<lparr>tx_root = r, tx_writable = True, tx_status = TxOpen\<rparr>) =
     (case map_of c k of
        Some (Sub d) \<Rightarrow>
          (Some ErrIncompatibleValue, u,
           with_tx w \<lparr>tx_root = r, tx_writable = True, tx_status = TxOpen\<rparr>)
      | Some (Leaf v) \<Rightarrow>
          (None, u, with_tx w \<lparr>tx_root = r, tx_writable = True, tx_status = TxOpen\<rparr>)
      | None \<Rightarrow>
          (None, u, with_tx w \<lparr>tx_root = put_at r p (upsert k (Leaf bs) c),
                               tx_writable = True, tx_status = TxOpen\<rparr>))"
  using assms
  by (simp add: SetIfNone_closure_def Bucket_Put_def Bucket_write_with_tx
      Bucket_Get_with_tx get_leaf_def split: option.splits entry.splits)

lemma Delete_closure_eval:
  assumes "Node_bucket m (with_tx w \<lparr>tx_root = r, tx_writable = True, tx_status = TxOpen\<rparr>) =
      (Inr (t, p), m', with_tx w \<lparr>tx_root = r, tx_writable = True, tx_status = TxOpen\<rparr>)"
    and "t = length (db_txs w)" "resolve r p = Some c"
  shows "Delete_closure k m u
           (with_tx w \<lparr>tx_root = r, tx_writable = True, tx_status = TxOpen\<rparr>) =
     (case map_of c k of
        Some (Sub d) \<Rightarrow>
          (Some ErrIncompatibleValue, u,
           with_tx w \<lparr>tx_root = r, tx_writable = True, tx_status = TxOpen\<rparr>)
      | Some (Leaf v) \<Rightarrow>
          (None, u, with_tx w \<lparr>tx_root = put_at r p (remove_key k c),
                               tx_writable = True, tx_status = TxOpen\<rparr>)
      | None \<Rightarrow>
          (None, u, with_tx w \<lparr>tx_root = put_at r p c,
                               tx_writable = True, tx_status = TxOpen\<rparr>))"
  using assms
  by (simp add: Delete_closure_def Bucket_Delete_def Bucket_write_with_tx
      split: option.splits entry.splits)

lemma Delete_fresh:
  assumes "txn n = None" "db_opened w"
    and cp: "create_path (db_root w) (path n) = (None, r')"
    and rs: "resolve r' (path n) = Some c"
  shows "Delete n k w =
     (case map_of c (mustKey k) of
        Some (Sub d) \<Rightarrow>
          (Some ErrIncompatibleValue,
           with_tx w \<lparr>tx_root = r', tx_writable = True, tx_status = TxRolledBack\<rparr>)
      | Some (Leaf v) \<Rightarrow>
          (None, with_tx (w\<lparr>db_root := put_at r' (path n) (remove_key (mustKey k) c)\<rparr>)
                   \<lparr>tx_root = put_at r' (path n) (remove_key (mustKey k) c),
                      tx_writable = True, tx_status = TxCommitted\<rparr>)
      | None \<Rightarrow>
          (None, with_tx (w\<lparr>db_root := put_at r' (path n) c\<rparr>)
                   \<lparr>tx_root = put_at r' (path n) c,
                      tx_writable = True, tx_status = TxCommitted\<rparr>))"
proof -
  let ?t = "length (db_txs w)"
  let ?m = "n\<lparr>txn := Some ?t, buck := (if path n = [] then None else Some (?t, path n))\<rparr>"
  note nb = Node_bucket_in_update [where t = ?t and w = w and n = n and r = r', OF refl]
  note ev = Delete_closure_eval [where k = "mustKey k" and u = "()", OF nb refl rs]
  show ?thesis
  proof (cases "map_of c (mustKey k)")
    case None
    with ev have "Delete_closure (mustKey k) ?m ()
        (with_tx w \<lparr>tx_root = r', tx_writable = True, tx_status = TxOpen\<rparr>) =
        (None, (), with_tx w \<lparr>tx_root = put_at r' (path n) c, tx_writable = True, tx_status = TxOpen\<rparr>)"
      by simp
    from TxUpdate_fresh_result [where f = "Delete_closure (mustKey k)", OF assms(1,2) cp this] None show ?thesis
      by (simp add: Delete_def)
  next
    case (Some e)
    show ?thesis
    proof (cases e)
      case (Leaf v)
      with Some ev have "Delete_closure (mustKey k) ?m ()
          (with_tx w \<lparr>tx_root = r', tx_writable = True, tx_status = TxOpen\<rparr>) =
          (None, (), with_tx w \<lparr>tx_root = put_at r' (path n) (remove_key (mustKey k) c),
             tx_writable = True, tx_status = TxOpen\<rparr>)"
        by simp
      from TxUpdate_fresh_result [where f = "Delete_closure (mustKey k)", OF assms(1,2) cp this] Some Leaf show ?thesis
        by (simp add: Delete_def)
    next
      case (Sub d)
      with Some ev have "Delete_closure (mustKey k) ?m ()
          (with_tx w \<lparr>tx_root = r', tx_writable = True, tx_status = TxOpen\<rparr>) =
          (Some ErrIncompatibleValue, (),
           with_tx w \<lparr>tx_root = r', tx_writable = True, tx_status = TxOpen\<rparr>)"
        by simp
      from TxUpdate_fresh_result [where f = "Delete_closure (mustKey k)", OF assms(1,2) cp this] Some Sub show ?thesis
        by (simp add: Delete_def)
    qed
  qed
qed

lemma Set_fresh:
  assumes "txn n = None" "db_opened w" and mv: "marshal v = Inr bs"
    and cp: "create_path (db_root w) (path n) = (None, r')"
    and rs: "resolve r' (path n) = Some c"
  shows "Set marshal n k v w =
     (case map_of c (mustKey k) of
        Some (Sub d) \<Rightarrow>
          (Some ErrIncompatibleValue,
           with_tx w \<lparr>tx_root = r', tx_writable = True, tx_status = TxRolledBack\<rparr>)
      | _ \<Rightarrow>
          (None, with_tx (w\<lparr>db_root := put_at r' (path n) (upsert (mustKey k) (Leaf bs) c)\<rparr>)
                   \<lparr>tx_root = put_at r' (path n) (upsert (mustKey k) (Leaf bs) c),
                      tx_writable = True, tx_status = TxCommitted\<rparr>))"
proof -
  let ?t = "length (db_txs w)"
  let ?m = "n\<lparr>txn := Some ?t, buck := (if path n = [] then None else Some (?t, path n))\<rparr>"
  let ?W = "with_tx w \<lparr>tx_root = r', tx_writable = True, tx_status = TxOpen\<rparr>"
  note nb = Node_bucket_in_update [where t = ?t and w = w and n = n and r = r', OF refl]
  note ev = Set_closure_eval [where k = "mustKey k" and u = "()" and bs = bs,
      OF nb refl rs mustKey_not_empty]
  obtain e r'' where res: "Set_closure (mustKey k) bs ?m () ?W =
      (e, (), with_tx w \<lparr>tx_root = r'', tx_writable = True, tx_status = TxOpen\<rparr>)"
    and e: "e = (case map_of c (mustKey k) of Some (Sub d) \<Rightarrow> Some ErrIncompatibleValue | _ \<Rightarrow> None)"
    and r'': "r'' = (case map_of c (mustKey k) of Some (Sub d) \<Rightarrow> r'
                     | _ \<Rightarrow> put_at r' (path n) (upsert (mustKey k) (Leaf bs) c))"
    using ev by (auto split: option.splits entry.splits)
  from TxUpdate_fresh_result [where f = "Set_closure (mustKey k) bs", OF assms(1,2) cp res] mv e r''
  show ?thesis
    by (simp add: Set_def split: option.splits entry.splits)
qed

lemma SetIfNone_fresh:
  assumes "txn n = None" "db_opened w" and mv: "marshal v = Inr bs"
    and cp: "create_path (db_root w) (path n) = (None, r')"
    and rs: "resolve r' (path n) = Some c"
  shows "SetIfNone marshal n k v w =
     (case map_of c (mustKey k) of
        Some (Sub d) \<Rightarrow>
          (Some ErrIncompatibleValue,
           with_tx w \<lparr>tx_root = r', tx_writable = True, tx_status = TxRolledBack\<rparr>)
      | Some (Leaf old) \<Rightarrow>
          (None, with_tx (w\<lparr>db_root := r'\<rparr>)
                   \<lparr>tx_root = r', tx_writable = True, tx_status = TxCommitted\<rparr>)
      | None \<Rightarrow>
          (None, with_tx (w\<lparr>db_root := put_at r' (path n) (upsert (mustKey k) (Leaf bs) c)\<rparr>)
                   \<lparr>tx_root = put_at r' (path n) (upsert (mustKey k) (Leaf bs) c),
                      tx_writable = True, tx_status = TxCommitted\<rparr>))"
proof -
  let ?t = "length (db_txs w)"
  let ?m = "n\<lparr>txn := Some ?t, buck := (if path n = [] then None else Some (?t, path n))\<rparr>"
  let ?W = "with_tx w \<lparr>tx_root = r', tx_writable = True, tx_status = TxOpen\<rparr>"
  note nb = Node_bucket_in_update [where t = ?t and w = w and n = n and r = r', OF refl]
  note ev = SetIfNone_closure_eval [where k = "mustKey k" and u = "()" and bs = bs,
      OF nb refl rs mustKey_not_empty]
  obtain e r'' where res: "SetIfNone_closure (mustKey k) bs ?m () ?W =
      (e, (), with_tx w \<lparr>tx_root = r'', tx_writable = True, tx_status = TxOpen\<rparr>)"
    and e: "e = (case map_of c (mustKey k) of Some (Sub d) \<Rightarrow> Some ErrIncompatibleValue | _ \<Rightarrow> None)"
    and r'': "r'' = (case map_of c (mustKey k) of
                       None \<Rightarrow> put_at r' (path n) (upsert (mustKey k) (Leaf bs) c)
                     | _ \<Rightarrow> r')"
    using ev by (auto split: option.splits entry.splits)
  from TxUpdate_fresh_result [where f = "SetIfNone_closure (mustKey k) bs", OF assms(1,2) cp res] mv e r''
  show ?thesis
    by (simp add: SetIfNone_def split: option.splits entry.splits)
qed

lemma update_fails:
  assumes "txn n = None" "db_opened w"
    and cp: "create_path (db_root w) (path n) = (Some err, r')"
  shows "TxUpdate n f u w =
     (Some (Wrap err ''failed to fetch bucket for existing path''), u,
      with_tx w \<lparr>tx_root = r', tx_writable = True, tx_status = TxRolledBack\<rparr>)"
  using assms by (simp add: TxUpdate_fresh)

lemma Exists_fresh:
  assumes "txn n = None" "db_opened w"
  shows "Exists n k w =
     ((case resolve (db_root w) (path n) of
         None \<Rightarrow> False
       | Some c \<Rightarrow> k = [] \<or> get_leaf c k \<noteq> None),
      with_tx w \<lparr>tx_root = db_root w, tx_writable = False, tx_status = TxRolledBack\<rparr>)"
proof -
  let ?t = "length (db_txs w)"
  let ?m = "n\<lparr>txn := Some ?t, buck := None\<rparr>"
  let ?W = "with_tx w \<lparr>tx_root = db_root w, tx_writable = False, tx_status = TxOpen\<rparr>"
  have "Exists_closure k ?m False ?W =
      (None, (case resolve (db_root w) (path n) of
                None \<Rightarrow> False
              | Some c \<Rightarrow> k = [] \<or> get_leaf c k \<noteq> None), ?W)"
    by (simp add: Exists_closure_def Node_bucketExists_def NodePath_BucketExists_def
        tx_at_with_tx Node_bucket_cached Bucket_Get_with_tx split: option.splits)
  from TxView_fresh_result [where f = "Exists_closure k", OF assms this]
  show ?thesis by (simp add: Exists_def)
qed

section \<open>Loops and closures\<close>

lemma get_leaf_remove_key: "get_leaf (remove_key k c) k = None"
proof -
  have "map_of (remove_key k c) k = None"
    by (induction c) (auto simp: remove_key_def)
  then show ?thesis by (simp add: get_leaf_def)
qed

lemma TxUpdate_inherited:
  "txn m = Some t \<Longrightarrow> tx_Writable t w \<Longrightarrow> TxUpdate m g u w = g m u w"
  by (simp add: TxUpdate_def doTx_def)

lemma wf_bucket_resolve:
  "wf_bucket r \<Longrightarrow> resolve r p = Some c \<Longrightarrow> wf_bucket c"
proof (induction p arbitrary: r)
  case Nil
  then show ?case by simp
next
  case (Cons s ss)
  from Cons.prems obtain d where d: "map_of r s = Some (Sub d)" and r: "resolve d ss = Some c"
    by (auto split: option.splits entry.splits)
  from Cons.prems(1) d have "wf_bucket d" by (rule wf_bucket_sub)
  with Cons.IH r show ?case by simp
qed

lemma map_of_leaves_only:
  "\<forall>x \<in> set c. is_leaf (snd x) \<Longrightarrow> map_of c k \<noteq> Some (Sub d)"
proof
  assume a: "\<forall>x \<in> set c. is_leaf (snd x)" and m: "map_of c k = Some (Sub d)"
  from m have "(k, Sub d) \<in> set c" by (rule map_of_SomeD)
  with a show False by force
qed

lemma Cursor_Delete_leaf:
  assumes "t = length (db_txs w)" "resolve r p = Some c" "\<forall>x \<in> set c. is_leaf (snd x)"
  shows "Cursor_Delete (t, p) k (with_tx w \<lparr>tx_root = r, tx_writable = True, tx_status = TxOpen\<rparr>) =
     (None, with_tx w \<lparr>tx_root = put_at r p (remove_key k c), tx_writable = True, tx_status = TxOpen\<rparr>)"
  using assms map_of_leaves_only [OF assms(3), of k]
  by (simp add: Cursor_Delete_def Bucket_write_with_tx split: option.splits entry.splits)

lemma remove_key_leaves:
  "\<forall>x \<in> set c. is_leaf (snd x) \<Longrightarrow> \<forall>x \<in> set (remove_key k c). is_leaf (snd x)"
  by (simp add: remove_key_def)

lemma DropExceptLast_loop_leaves:
  assumes "t = length (db_txs w)"
  shows "resolve r p = Some c \<Longrightarrow> \<forall>x \<in> set c. is_leaf (snd x) \<Longrightarrow>
     \<forall>x \<in> set es. is_leaf (snd x) \<Longrightarrow>
     DropExceptLast_loop (t, p) es K bks le
       (with_tx w \<lparr>tx_root = r, tx_writable = True, tx_status = TxOpen\<rparr>) =
     (bks, le,
      with_tx w \<lparr>tx_root = (if drop (nat K) es = [] then r
                               else put_at r p (filter (\<lambda>x. fst x \<notin> fst ` set (drop (nat K) es)) c)),
                  tx_writable = True, tx_status = TxOpen\<rparr>)"
proof (induction es arbitrary: K r c)
  case Nil
  show ?case by simp
next
  case (Cons a es)
  obtain k v where a: "a = (k, v)" by (cases a)
  show ?case
  proof (cases "K > 0")
    case True
    then have n: "nat K = Suc (nat (K - 1))" by simp
    from Cons.prems have "\<forall>x \<in> set es. is_leaf (snd x)" by simp
    from Cons.IH [OF Cons.prems(1,2) this, of "K - 1"] True a n show ?thesis by simp
  next
    case False
    then have n: "nat K = 0" by simp
    from Cons.prems a have leaf: "is_leaf v" and rest: "\<forall>x \<in> set es. is_leaf (snd x)" by simp_all
    let ?r = "put_at r p (remove_key k c)"
    have rs: "resolve ?r p = Some (remove_key k c)"
      using Cons.prems(1) by (rule resolve_put_at)
    have lv: "\<forall>x \<in> set (remove_key k c). is_leaf (snd x)"
      using Cons.prems(2) by (rule remove_key_leaves)
    have f: "filter (\<lambda>x. fst x \<notin> fst ` set es) (remove_key k c) =
        filter (\<lambda>x. fst x \<notin> fst ` set (a # es)) c"
      using a by (auto simp: remove_key_def intro: filter_cong)
    have e: "es = [] \<Longrightarrow> remove_key k c = filter (\<lambda>x. fst x \<notin> fst ` set (a # es)) c"
      using a by (auto simp: remove_key_def intro: filter_cong)
    from Cons.IH [OF rs lv rest, of K] False a n leaf f e
      Cursor_Delete_leaf [OF assms Cons.prems(1,2), of k]
    show ?thesis by (simp add: put_at_put_at)
  qed
qed

lemma filter_not_taken:
  "distinct (map fst c) \<Longrightarrow> filter (\<lambda>x. fst x \<notin> fst ` set (take m c)) c = drop m c"
proof (induction c arbitrary: m)
  case Nil
  show ?case by simp
next
  case (Cons a c)
  show ?case
  proof (cases m)
    case 0
    then show ?thesis by simp
  next
    case (Suc j)
    from Cons.prems have d: "distinct (map fst c)" and na: "fst a \<notin> fst ` set c" by simp_all
    have "filter (\<lambda>x. fst x \<notin> fst ` set (take m (a # c))) (a # c) =
        filter (\<lambda>x. fst x \<notin> insert (fst a) (fst ` set (take j c))) c"
      using Suc by simp
    also have "\<dots> = filter (\<lambda>x. fst x \<notin> fst ` set (take j c)) c"
    proof (rule filter_cong [OF refl])
      fix x
      assume "x \<in> set c"
      then have "fst x \<in> fst ` set c" by (rule imageI)
      with na have "fst x \<noteq> fst a" by metis
      then show "(fst x \<notin> insert (fst a) (fst ` set (take j c))) =
          (fst x \<notin> fst ` set (take j c))" by simp
    qed
    also have "\<dots> = drop j c" using Cons.IH [OF d] .
    finally show ?thesis using Suc by simp
  qed
qed

lemma sorted_keys_distinct: "sorted_wrt (<) (ks :: bytes list) \<Longrightarrow> distinct ks"
  by (induction ks) auto

lemma Each_count_leaves: "Each_count es k = k + int (length (leaves es))"
proof (induction es arbitrary: k)
  case Nil
  show ?case by (simp add: leaves_def)
next
  case (Cons a es)
  obtain k' e where a: "a = (k', e)" by (cases a)
  with Cons show ?case by (simp add: leaves_def)
qed

lemma logging_apply:
  "fn k l (v, u) = (e, v', u') \<Longrightarrow> logging fn k l (v, u, log) = (e, v', u', log @ [(k, l, e)])"
  by (simp add: logging_def)

lemma Each_loop_logging:
  "Each_loop um (logging fn) N es (v, u, log0) = (err, v', u', log) \<Longrightarrow>
   \<exists>new. log = log0 @ new \<and>
     length new \<le> length (leaves es) \<and>
     map fst new = take (length new) (map fst (leaves es)) \<and>
     (\<forall>x \<in> set new. fst (snd x) = N) \<and>
     (\<forall>i < length new. \<forall>e. snd (snd (new ! i)) = Some e \<longrightarrow>
        Suc i = length new \<and> err = (if e = EachBreak then None else Some e)) \<and>
     (err = None \<and> (\<forall>x \<in> set new. snd (snd x) = None) \<longrightarrow> length new = length (leaves es))"
proof (induction es arbitrary: v u log0)
  case Nil
  then show ?case by (simp add: leaves_def)
next
  case (Cons a es)
  obtain k ent where a: "a = (k, ent)" by (cases a)
  show ?case
  proof (cases ent)
    case (Sub d)
    with Cons.prems a have "Each_loop um (logging fn) N es (v, u, log0) = (err, v', u', log)"
      by simp
    from Cons.IH [OF this] a Sub show ?thesis by (simp add: leaves_def)
  next
    case (Leaf b)
    obtain ue v1 where um: "um b v = (ue, v1)" by (cases "um b v")
    show ?thesis
    proof (cases ue)
      case (Some e)
      with Cons.prems a Leaf um have "log = log0" "err \<noteq> None" by auto
      then show ?thesis by (intro exI [of _ "[]"]) auto
    next
      case None
      obtain fe v2 u2 where fn: "fn k N (v1, u) = (fe, v2, u2)" by (cases "fn k N (v1, u)")
      show ?thesis
      proof (cases fe)
        case (Some e)
        with Cons.prems a Leaf um None fn
        have "log = log0 @ [(k, N, Some e)]" "err = (if e = EachBreak then None else Some e)"
          by (auto simp: logging_apply [where fn = fn, OF fn] split: if_splits)
        with a Leaf show ?thesis
          by (intro exI [of _ "[(k, N, Some e)]"]) (simp add: leaves_def)
      next
        case fnone: None
        with Cons.prems a Leaf um None fn
        have "Each_loop um (logging fn) N es (v2, u2, log0 @ [(k, N, None)]) = (err, v', u', log)"
          by (simp add: logging_apply [where fn = fn, OF fn])
        from Cons.IH [OF this] obtain new where
          l: "log = (log0 @ [(k, N, None)]) @ new"
          and len: "length new \<le> length (leaves es)"
          and keys: "map fst new = take (length new) (map fst (leaves es))"
          and cnt: "\<forall>x \<in> set new. fst (snd x) = N"
          and stop: "\<forall>i < length new. \<forall>e. snd (snd (new ! i)) = Some e \<longrightarrow>
              Suc i = length new \<and> err = (if e = EachBreak then None else Some e)"
          and full: "err = None \<and> (\<forall>x \<in> set new. snd (snd x) = None) \<longrightarrow>
              length new = length (leaves es)"
          by blast
        let ?new = "(k, N, None) # new"
        have lv: "leaves (a # es) = a # leaves es" using a Leaf by (simp add: leaves_def)
        have 1: "log = log0 @ ?new" using l by simp
        have 2: "length ?new \<le> length (leaves (a # es))" using len lv by simp
        have 3: "map fst ?new = take (length ?new) (map fst (leaves (a # es)))"
          using keys lv a by simp
        have 4: "\<forall>x \<in> set ?new. fst (snd x) = N" using cnt by simp
        have 5: "\<forall>i < length ?new. \<forall>e. snd (snd (?new ! i)) = Some e \<longrightarrow>
            Suc i = length ?new \<and> err = (if e = EachBreak then None else Some e)"
        proof (intro allI impI)
          fix i e
          assume i: "i < length ?new" and s: "snd (snd (?new ! i)) = Some e"
          show "Suc i = length ?new \<and> err = (if e = EachBreak then None else Some e)"
          proof (cases i)
            case 0
            with s show ?thesis by simp
          next
            case (Suc j)
            with i s stop show ?thesis by simp
          qed
        qed
        have 6: "err = None \<and> (\<forall>x \<in> set ?new. snd (snd x) = None) \<longrightarrow>
            length ?new = length (leaves (a # es))"
          using full lv by simp
        from 1 2 3 4 5 6 show ?thesis by blast
      qed
    qed
  qed
qed

lemma Each_loop_logging_ends:
  assumes dec: "\<forall>b v. fst (um b v) = None"
  shows "Each_loop um (logging fn) N es (v, u, log0) = (err, v', u', log) \<Longrightarrow>
     \<exists>new. log = log0 @ new \<and>
       (length new = length (leaves es) \<or> (new \<noteq> [] \<and> snd (snd (last new)) \<noteq> None))"
proof (induction es arbitrary: v u log0)
  case Nil
  then show ?case by (simp add: leaves_def)
next
  case (Cons a es)
  obtain k ent where a: "a = (k, ent)" by (cases a)
  show ?case
  proof (cases ent)
    case (Sub d)
    with Cons.prems a have "Each_loop um (logging fn) N es (v, u, log0) = (err, v', u', log)"
      by simp
    from Cons.IH [OF this] obtain new where "log = log0 @ new"
      "length new = length (leaves es) \<or> (new \<noteq> [] \<and> snd (snd (last new)) \<noteq> None)"
      by blast
    moreover have "leaves (a # es) = leaves es" using a Sub by (simp add: leaves_def)
    ultimately show ?thesis by auto
  next
    case (Leaf b)
    obtain ue v1 where um: "um b v = (ue, v1)" by (cases "um b v")
    from dec [rule_format, of b v] um have ue: "ue = None" by simp
    have lv: "leaves (a # es) = a # leaves es" using a Leaf by (simp add: leaves_def)
    obtain fe v2 u2 where fn: "fn k N (v1, u) = (fe, v2, u2)" by (cases "fn k N (v1, u)")
    show ?thesis
    proof (cases fe)
      case (Some e)
      with Cons.prems a Leaf um ue fn have "log = log0 @ [(k, N, Some e)]"
        by (auto simp: logging_apply [where fn = fn, OF fn] split: if_splits)
      then show ?thesis by auto
    next
      case None
      with Cons.prems a Leaf um ue fn
      have "Each_loop um (logging fn) N es (v2, u2, log0 @ [(k, N, None)]) = (err, v', u', log)"
        by (simp add: logging_apply [where fn = fn, OF fn])
      from Cons.IH [OF this] obtain new where l: "log = (log0 @ [(k, N, None)]) @ new"
        and e: "length new = length (leaves es) \<or> (new \<noteq> [] \<and> snd (snd (last new)) \<noteq> None)"
        by blast
      let ?new = "(k, N, None) # new"
      from l have 1: "log = log0 @ ?new" by simp
      from e lv have 2: "length ?new = length (leaves (a # es)) \<or>
          (?new \<noteq> [] \<and> snd (snd (last ?new)) \<noteq> None)" by auto
      from 1 2 show ?thesis by blast
    qed
  qed
qed

section \<open>Properties\<close>

text \<open>
  C1 (the code departs from the claim). After a successful \<open>Set\<close>, \<open>Exists\<close> on the same
  Node should return true for every key, runs of null bytes included. \<open>Set\<close> stores under
  the sanitised key; \<open>Exists\<close> looks the key up as given, where \<open>Get\<close>, \<open>Set\<close>,
  \<open>SetIfNone\<close> and \<open>Delete\<close> all sanitise it. For the key of two null bytes, on the Node
  \<open>rooms\<close> of an empty database: \<open>Set\<close> succeeds (the value goes under three null bytes)
  and \<open>Exists\<close> returns false.
\<close>

theorem C1_Exists_unsanitized_key:
  "fst (Set Inr \<lparr>txn = None, buck = None, path = [''rooms'']\<rparr> [null_byte, null_byte] ''v''
          \<lparr>db_opened = True, db_root = [], db_txs = []\<rparr>) = None \<and>
   fst (Exists \<lparr>txn = None, buck = None, path = [''rooms'']\<rparr> [null_byte, null_byte]
         (snd (Set Inr \<lparr>txn = None, buck = None, path = [''rooms'']\<rparr> [null_byte, null_byte] ''v''
                 \<lparr>db_opened = True, db_root = [], db_txs = []\<rparr>))) = False"
  by code_simp

text \<open>
  C2, as stated, fails: when the bucket of a fresh writable transaction cannot be resolved,
  the callback is not invoked. The path \<open>rooms/x\<close> runs through the leaf value \<open>x\<close>, so
  the bucket cannot be created; the counting callback is never run (the count stays 0), the
  wrapped resolution error is returned and the transaction is rolled back.
\<close>

theorem C2_cex_resolution_failure:
  "TxUpdate \<lparr>txn = None, buck = None, path = [''rooms'', ''x'']\<rparr> counting 0
     \<lparr>db_opened = True, db_root = [(''rooms'', Sub [(''x'', Leaf ''v'')])], db_txs = []\<rparr> =
   (Some (Wrap ErrIncompatibleValue ''failed to fetch bucket for existing path''), 0,
    \<lparr>db_opened = True, db_root = [(''rooms'', Sub [(''x'', Leaf ''v'')])],
       db_txs = [\<lparr>tx_root = [(''rooms'', Sub [(''x'', Leaf ''v'')])], tx_writable = True,
                   tx_status = TxRolledBack\<rparr>]\<rparr>)"
  by code_simp

text \<open>
  C2, amended: when \<open>TxUpdate\<close> begins a fresh writable transaction on a Node with a
  non-empty path, failure to pre-resolve the current bucket is fatal to the call: the
  callback is not invoked, the resolution error is returned, wrapped, and the transaction is
  rolled back with the committed state unchanged. When the resolution succeeds the callback
  is invoked on the Node holding the new transaction and its resolved bucket; the
  transaction is committed if the callback returns nil and rolled back, returning the
  callback's error, otherwise (for a callback that works on the transaction and leaves it
  open).
\<close>

theorem C2_TxUpdate_fresh_transaction:
  assumes "txn n = None" "db_opened w" "path n \<noteq> []"
  shows "(\<forall>err r'. create_path (db_root w) (path n) = (Some err, r') \<longrightarrow>
            TxUpdate n f u w =
              (Some (Wrap err ''failed to fetch bucket for existing path''), u,
               with_tx w \<lparr>tx_root = r', tx_writable = True, tx_status = TxRolledBack\<rparr>)) \<and>
         (\<forall>r' e u' r''.
            create_path (db_root w) (path n) = (None, r') \<and>
            f (n\<lparr>txn := Some (length (db_txs w)), buck := Some (length (db_txs w), path n)\<rparr>) u
              (with_tx w \<lparr>tx_root = r', tx_writable = True, tx_status = TxOpen\<rparr>) =
              (e, u', with_tx w \<lparr>tx_root = r'', tx_writable = True, tx_status = TxOpen\<rparr>) \<longrightarrow>
            TxUpdate n f u w =
              (if e = None
               then (None, u', with_tx (w\<lparr>db_root := r''\<rparr>)
                       \<lparr>tx_root = r'', tx_writable = True, tx_status = TxCommitted\<rparr>)
               else (e, u', with_tx w
                       \<lparr>tx_root = r'', tx_writable = True, tx_status = TxRolledBack\<rparr>)))"
proof (intro conjI allI impI)
  fix err r'
  assume "create_path (db_root w) (path n) = (Some err, r')"
  with assms show "TxUpdate n f u w =
      (Some (Wrap err ''failed to fetch bucket for existing path''), u,
       with_tx w \<lparr>tx_root = r', tx_writable = True, tx_status = TxRolledBack\<rparr>)"
    by (simp add: update_fails)
next
  fix r' e u' r''
  assume h: "create_path (db_root w) (path n) = (None, r') \<and>
      f (n\<lparr>txn := Some (length (db_txs w)), buck := Some (length (db_txs w), path n)\<rparr>) u
        (with_tx w \<lparr>tx_root = r', tx_writable = True, tx_status = TxOpen\<rparr>) =
        (e, u', with_tx w \<lparr>tx_root = r'', tx_writable = True, tx_status = TxOpen\<rparr>)"
  then have cp: "create_path (db_root w) (path n) = (None, r')" by (rule conjunct1)
  from h assms(3) have run:
    "f (n\<lparr>txn := Some (length (db_txs w)),
          buck := (if path n = [] then None else Some (length (db_txs w), path n))\<rparr>) u
        (with_tx w \<lparr>tx_root = r', tx_writable = True, tx_status = TxOpen\<rparr>) =
        (e, u', with_tx w \<lparr>tx_root = r'', tx_writable = True, tx_status = TxOpen\<rparr>)"
    by simp
  from TxUpdate_fresh_result [where f = f, OF assms(1,2) cp run]
  show "TxUpdate n f u w =
      (if e = None
       then (None, u', with_tx (w\<lparr>db_root := r''\<rparr>)
               \<lparr>tx_root = r'', tx_writable = True, tx_status = TxCommitted\<rparr>)
       else (e, u', with_tx w
               \<lparr>tx_root = r'', tx_writable = True, tx_status = TxRolledBack\<rparr>))" .
qed

text \<open>C2, at sample data.\<close>

theorem C2_TxUpdate_fresh_transaction_witness:
  "txn rooms_node = None \<and> db_opened abc_db \<and> path rooms_node \<noteq> [] \<and>
   TxUpdate (rooms_node\<lparr>path := [''rooms'', ''a'']\<rparr>) counting 0 abc_db =
     (Some (Wrap ErrIncompatibleValue ''failed to fetch bucket for existing path''), 0,
      with_tx abc_db \<lparr>tx_root = db_root abc_db, tx_writable = True, tx_status = TxRolledBack\<rparr>) \<and>
   TxUpdate rooms_node counting 0 abc_db =
     (None, Suc 0,
      with_tx (abc_db\<lparr>db_root := db_root abc_db\<rparr>)
        \<lparr>tx_root = db_root abc_db, tx_writable = True, tx_status = TxCommitted\<rparr>)"
proof -
  let ?blocked = "rooms_node\<lparr>path := [''rooms'', ''a'']\<rparr>"
  have h1: "txn rooms_node = None" by (simp add: rooms_node_def)
  have h2: "db_opened abc_db" by (simp add: abc_db_def)
  have h3: "path rooms_node \<noteq> []" by (simp add: rooms_node_def)
  have b1: "txn ?blocked = None" by (simp add: rooms_node_def)
  have b3: "path ?blocked \<noteq> []" by simp
  have cpf: "create_path (db_root abc_db) (path ?blocked) =
      (Some ErrIncompatibleValue, db_root abc_db)" by code_simp
  have cps: "create_path (db_root abc_db) (path rooms_node) = (None, db_root abc_db)"
    by code_simp
  have run: "counting
      (rooms_node\<lparr>txn := Some (length (db_txs abc_db)),
                    buck := Some (length (db_txs abc_db), path rooms_node)\<rparr>) 0
      (with_tx abc_db \<lparr>tx_root = db_root abc_db, tx_writable = True, tx_status = TxOpen\<rparr>) =
      (None, Suc 0,
       with_tx abc_db \<lparr>tx_root = db_root abc_db, tx_writable = True, tx_status = TxOpen\<rparr>)"
    by (simp add: counting_def)
  from C2_TxUpdate_fresh_transaction [OF b1 h2 b3, of counting 0] cpf
  have a: "TxUpdate ?blocked counting 0 abc_db =
     (Some (Wrap ErrIncompatibleValue ''failed to fetch bucket for existing path''), 0,
      with_tx abc_db \<lparr>tx_root = db_root abc_db, tx_writable = True, tx_status = TxRolledBack\<rparr>)"
    by blast
  from C2_TxUpdate_fresh_transaction [OF h1 h2 h3, of counting 0] cps run
  have "TxUpdate rooms_node counting 0 abc_db =
     (if (None :: error option) = None
      then (None, Suc 0, with_tx (abc_db\<lparr>db_root := db_root abc_db\<rparr>)
              \<lparr>tx_root = db_root abc_db, tx_writable = True, tx_status = TxCommitted\<rparr>)
      else (None, Suc 0, with_tx abc_db
              \<lparr>tx_root = db_root abc_db, tx_writable = True, tx_status = TxRolledBack\<rparr>))"
    by blast
  then have b: "TxUpdate rooms_node counting 0 abc_db =
     (None, Suc 0,
      with_tx (abc_db\<lparr>db_root := db_root abc_db\<rparr>)
        \<lparr>tx_root = db_root abc_db, tx_writable = True, tx_status = TxCommitted\<rparr>)"
    by simp
  from h1 h2 h3 a b show ?thesis by blast
qed

text \<open>
  C3, as stated, fails: sanitising twice is not the identity on the sanitised key. The
  empty key becomes the two-byte sentinel, and sanitising the sentinel appends a third
  null byte.
\<close>

theorem C3_cex_not_idempotent:
  "all_null [] \<and> mustKey (mustKey []) \<noteq> mustKey []"
  by (simp add: mustKey_alt all_null_def nullKey_def)

text \<open>
  C3, amended: for every non-empty key (in particular every run of null bytes) the
  sanitised key differs from the sanitised empty key; sanitising twice equals sanitising
  once exactly for the keys that are neither empty nor a run of two or more null bytes
  (among the all-null keys: only the single null byte), and for the empty key and the runs
  of two or more null bytes the second application appends exactly one more null byte.
\<close>

theorem C3_mustKey_collision_free:
  "(key \<noteq> [] \<longrightarrow> mustKey key \<noteq> mustKey []) \<and>
   (mustKey (mustKey key) = mustKey key \<longleftrightarrow> key \<noteq> [] \<and> \<not> (all_null key \<and> length key \<ge> 2)) \<and>
   (key = [] \<or> (all_null key \<and> length key \<ge> 2) \<longrightarrow>
      mustKey (mustKey key) = mustKey key @ [null_byte])"
proof -
  have e: "mustKey [] = nullKey" by (simp add: mustKey_def)
  have a: "key \<noteq> [] \<longrightarrow> mustKey key \<noteq> mustKey []"
    using mustKey_never_nullKey [of key] e by simp
  have b: "mustKey (mustKey key) = mustKey key \<longleftrightarrow> key \<noteq> [] \<and> \<not> (all_null key \<and> length key \<ge> 2)"
    by (simp add: mustKey_twice)
  have c: "key = [] \<or> (all_null key \<and> length key \<ge> 2) \<longrightarrow>
      mustKey (mustKey key) = mustKey key @ [null_byte]"
    by (simp add: mustKey_twice)
  from a b c show ?thesis by blast
qed

text \<open>C3, at sample data.\<close>

theorem C3_mustKey_collision_free_witness:
  "mustKey [null_byte, null_byte] \<noteq> mustKey [] \<and>
   mustKey (mustKey [null_byte]) = mustKey [null_byte] \<and>
   mustKey (mustKey [null_byte, null_byte]) = mustKey [null_byte, null_byte] @ [null_byte]"
  using C3_mustKey_collision_free [of "[null_byte, null_byte]"]
    C3_mustKey_collision_free [of "[null_byte]"]
  by (simp add: all_null_def)

text \<open>
  C4: \<open>DropExceptLast K\<close> on a Node without a transaction whose bucket exists and holds
  \<open>N\<close> leaf entries and no nested bucket succeeds and leaves in the bucket exactly the last
  \<open>K\<close> entries in key order, unchanged: the \<open>N - K\<close> entries removed all have smaller keys
  than the entries kept; when \<open>N \<le> K\<close> the committed state is unchanged.
\<close>

theorem C4_DropExceptLast:
  assumes "txn n = None" "db_opened w" "wf_bucket (db_root w)"
    and rs: "resolve (db_root w) (path n) = Some es"
    and lv: "\<forall>x \<in> set es. is_leaf (snd x)"
  shows "fst (DropExceptLast n K w) = None \<and>
         db_root (snd (DropExceptLast n K w)) =
           put_at (db_root w) (path n) (drop (length es - nat K) es) \<and>
         resolve (db_root (snd (DropExceptLast n K w))) (path n) =
           Some (drop (length es - nat K) es) \<and>
         (\<forall>a \<in> set (take (length es - nat K) es).
            \<forall>b \<in> set (drop (length es - nat K) es). fst a < fst b) \<and>
         (int (length es) \<le> K \<longrightarrow> db_root (snd (DropExceptLast n K w)) = db_root w)"
proof -
  let ?t = "length (db_txs w)"
  let ?m = "n\<lparr>txn := Some ?t, buck := (if path n = [] then None else Some (?t, path n))\<rparr>"
  let ?W = "with_tx w \<lparr>tx_root = db_root w, tx_writable = True, tx_status = TxOpen\<rparr>"
  let ?keep = "drop (length es - nat K) es"
  let ?R = "put_at (db_root w) (path n) ?keep"
  have cp: "create_path (db_root w) (path n) = (None, db_root w)"
    using assms(3) rs by (rule create_path_existing)
  have same: "put_at (db_root w) (path n) es = db_root w"
    using assms(3) rs by (rule put_at_same)
  have wfes: "wf_bucket es" using assms(3) rs by (rule wf_bucket_resolve)
  then have sorted: "sorted_wrt (<) (map fst es)" by (rule wf_bucket_sorted)
  then have dist: "distinct (map fst es)" by (rule sorted_keys_distinct)
  have dr: "drop (nat K) (rev es) = rev (take (length es - nat K) es)"
    by (simp add: drop_rev)
  have kept: "filter (\<lambda>x. fst x \<notin> fst ` set (drop (nat K) (rev es))) es = ?keep"
    using filter_not_taken [OF dist, of "length es - nat K"] by (simp add: dr)
  have none: "drop (nat K) (rev es) = [] \<Longrightarrow> ?R = db_root w"
  proof -
    assume "drop (nat K) (rev es) = []"
    then have "length es - nat K = 0 \<or> es = []" by (auto simp: dr)
    then have "?keep = es" by auto
    with same show ?thesis by simp
  qed
  note nb = Node_bucket_in_update [where t = ?t and w = w and n = n and r = "db_root w", OF refl]
  have lvr: "\<forall>x \<in> set (rev es). is_leaf (snd x)" using lv by simp
  note loop = DropExceptLast_loop_leaves [where t = ?t and w = w and p = "path n" and K = K
      and bks = "[]" and le = None, OF refl rs lv lvr]
  have run: "DropExceptLast_closure K ?m () ?W =
      (None, (), with_tx w \<lparr>tx_root = ?R, tx_writable = True, tx_status = TxOpen\<rparr>)"
    using nb loop kept none
    by (simp add: DropExceptLast_closure_def Cursor_entries_with_tx rs)
  from TxUpdate_fresh_result [where f = "DropExceptLast_closure K", OF assms(1,2) cp run]
  have res: "DropExceptLast n K w =
      (None, with_tx (w\<lparr>db_root := ?R\<rparr>)
               \<lparr>tx_root = ?R, tx_writable = True, tx_status = TxCommitted\<rparr>)"
    by (simp add: DropExceptLast_def)
  have ord: "\<forall>a \<in> set (take (length es - nat K) es). \<forall>b \<in> set ?keep. fst a < fst b"
  proof -
    have "es = take (length es - nat K) es @ ?keep" by simp
    then have "sorted_wrt (<) (map fst (take (length es - nat K) es) @ map fst ?keep)"
      using sorted by (metis map_append)
    then show ?thesis by (auto simp: sorted_wrt_append)
  qed
  have noop: "int (length es) \<le> K \<Longrightarrow> ?R = db_root w"
  proof -
    assume "int (length es) \<le> K"
    then have "length es - nat K = 0" by simp
    then have "?keep = es" by simp
    with same show ?thesis by simp
  qed
  from res ord noop resolve_put_at [OF rs, of ?keep] show ?thesis by simp
qed

text \<open>C4, at sample data.\<close>

theorem C4_DropExceptLast_witness:
  "txn rooms_node = None \<and> db_opened abc_db \<and> wf_bucket (db_root abc_db) \<and>
   fst (DropExceptLast rooms_node 2 abc_db) = None \<and>
   db_root (snd (DropExceptLast rooms_node 2 abc_db)) =
     [(''rooms'', Sub [(''b'', Leaf ''2''), (''c'', Leaf ''3'')])] \<and>
   db_root (snd (DropExceptLast rooms_node 3 abc_db)) = db_root abc_db"
proof -
  let ?es = "[(''a'', Leaf ''1''), (''b'', Leaf ''2''), (''c'', Leaf ''3'')]"
  have h1: "txn rooms_node = None" by (simp add: rooms_node_def)
  have h2: "db_opened abc_db" by (simp add: abc_db_def)
  have h3: "wf_bucket (db_root abc_db)" by code_simp
  have h4: "resolve (db_root abc_db) (path rooms_node) = Some ?es" by code_simp
  have h5: "\<forall>x \<in> set ?es. is_leaf (snd x)" by simp
  have e: "put_at (db_root abc_db) (path rooms_node) (drop (length ?es - nat 2) ?es) =
      [(''rooms'', Sub [(''b'', Leaf ''2''), (''c'', Leaf ''3'')])]" by code_simp
  note two = C4_DropExceptLast [OF h1 h2 h3 h4 h5, of 2]
  note three = C4_DropExceptLast [OF h1 h2 h3 h4 h5, of 3]
  from two have a: "fst (DropExceptLast rooms_node 2 abc_db) = None" by (rule conjunct1)
  from two have "db_root (snd (DropExceptLast rooms_node 2 abc_db)) =
      put_at (db_root abc_db) (path rooms_node) (drop (length ?es - nat 2) ?es)" by blast
  from this e have b: "db_root (snd (DropExceptLast rooms_node 2 abc_db)) =
      [(''rooms'', Sub [(''b'', Leaf ''2''), (''c'', Leaf ''3'')])]" by (rule trans)
  have le: "int (length ?es) \<le> 3" by simp
  from three le have c: "db_root (snd (DropExceptLast rooms_node 3 abc_db)) = db_root abc_db"
    by blast
  from h1 h2 h3 a b c show ?thesis by blast
qed

text \<open>
  C5, as stated, fails: an error of the inner callback rolls the transaction back only if
  the outer callback returns an error too. Here the outer callback sets \<open>a\<close>, calls
  \<open>TxUpdate\<close> on the Node it received with a callback that sets \<open>b\<close> and fails, ignores
  the error and returns nil: the transaction is committed with both writes.
\<close>

theorem C5_cex_inner_error_ignored:
  "TxUpdate \<lparr>txn = None, buck = None, path = [''rooms'']\<rparr>
     (\<lambda>m u w. case Set Inr m ''a'' ''1'' w of
        (e1, w1) \<Rightarrow>
          (case TxUpdate m
                  (\<lambda>m' u' w'. case Set Inr m' ''b'' ''2'' w' of
                     (e2, w2) \<Rightarrow> (Some (Failure ''inner''), u', w2)) u w1 of
             (e3, u3, w3) \<Rightarrow> (None, u3, w3)))
     () \<lparr>db_opened = True, db_root = [], db_txs = []\<rparr> =
   (None, (),
    \<lparr>db_opened = True, db_root = [(''rooms'', Sub [(''a'', Leaf ''1''), (''b'', Leaf ''2'')])],
       db_txs = [\<lparr>tx_root = [(''rooms'', Sub [(''a'', Leaf ''1''), (''b'', Leaf ''2'')])],
                   tx_writable = True, tx_status = TxCommitted\<rparr>]\<rparr>)"
  by code_simp

text \<open>
  C5, amended: a \<open>TxUpdate\<close> on a Node that inherited a writable transaction is exactly
  its callback: it begins, commits and rolls back nothing, and returns the callback's
  error. So \<open>TxUpdate\<close> nested in the callback of a \<open>TxUpdate\<close> on a Node without a
  transaction behaves as the outer call with the inner callback. The outermost call
  commits the transaction once, when its own callback returns nil; when its own callback
  returns an error (as it does when it passes on the error of the inner call) the
  transaction is rolled back and the committed state is unchanged.
\<close>

theorem C5_nested_TxUpdate:
  assumes "txn n = None" "db_opened w"
  shows "(\<forall>m t g u' w'. txn m = Some t \<and> tx_Writable t w' \<longrightarrow> TxUpdate m g u' w' = g m u' w') \<and>
         TxUpdate n (\<lambda>m. TxUpdate m f) u w = TxUpdate n f u w \<and>
         (\<forall>r' e u' r''.
            create_path (db_root w) (path n) = (None, r') \<and>
            f (n\<lparr>txn := Some (length (db_txs w)),
                  buck := (if path n = [] then None else Some (length (db_txs w), path n))\<rparr>) u
              (with_tx w \<lparr>tx_root = r', tx_writable = True, tx_status = TxOpen\<rparr>) =
              (e, u', with_tx w \<lparr>tx_root = r'', tx_writable = True, tx_status = TxOpen\<rparr>) \<longrightarrow>
            TxUpdate n f u w =
              (if e = None
               then (None, u', with_tx (w\<lparr>db_root := r''\<rparr>)
                       \<lparr>tx_root = r'', tx_writable = True, tx_status = TxCommitted\<rparr>)
               else (e, u', with_tx w
                       \<lparr>tx_root = r'', tx_writable = True, tx_status = TxRolledBack\<rparr>)))"
proof (intro conjI allI impI, goal_cases)
  case (1 m t g u' w')
  then show ?case by (simp add: TxUpdate_inherited)
next
  case 2
  have "\<And>r'. TxUpdate
      (n\<lparr>txn := Some (length (db_txs w)),
          buck := (if path n = [] then None else Some (length (db_txs w), path n))\<rparr>) f u
      (with_tx w \<lparr>tx_root = r', tx_writable = True, tx_status = TxOpen\<rparr>) =
    f (n\<lparr>txn := Some (length (db_txs w)),
          buck := (if path n = [] then None else Some (length (db_txs w), path n))\<rparr>) u
      (with_tx w \<lparr>tx_root = r', tx_writable = True, tx_status = TxOpen\<rparr>)"
    by (rule TxUpdate_inherited [where t = "length (db_txs w)"])
      (simp_all add: tx_Writable_def tx_at_with_tx)
  then show ?case
    by (simp only: TxUpdate_fresh [OF assms])
next
  case (3 r' e u' r'')
  then have cp: "create_path (db_root w) (path n) = (None, r')" by (rule conjunct1)
  from 3 have run:
    "f (n\<lparr>txn := Some (length (db_txs w)),
          buck := (if path n = [] then None else Some (length (db_txs w), path n))\<rparr>) u
        (with_tx w \<lparr>tx_root = r', tx_writable = True, tx_status = TxOpen\<rparr>) =
        (e, u', with_tx w \<lparr>tx_root = r'', tx_writable = True, tx_status = TxOpen\<rparr>)"
    by (rule conjunct2)
  from TxUpdate_fresh_result [where f = f, OF assms(1,2) cp run]
  show ?case .
qed

text \<open>C5, at sample data.\<close>

theorem C5_nested_TxUpdate_witness:
  "txn rooms_node = None \<and> db_opened abc_db \<and>
   TxUpdate rooms_node (\<lambda>m. TxUpdate m counting) 0 abc_db =
     (None, Suc 0,
      with_tx (abc_db\<lparr>db_root := db_root abc_db\<rparr>)
        \<lparr>tx_root = db_root abc_db, tx_writable = True, tx_status = TxCommitted\<rparr>) \<and>
   TxUpdate rooms_node (\<lambda>m. TxUpdate m (failing (Failure ''inner''))) 0 abc_db =
     (Some (Failure ''inner''), 0,
      with_tx abc_db \<lparr>tx_root = db_root abc_db, tx_writable = True, tx_status = TxRolledBack\<rparr>)"
proof -
  let ?m = "rooms_node\<lparr>txn := Some (length (db_txs abc_db)),
      buck := (if path rooms_node = [] then None
               else Some (length (db_txs abc_db), path rooms_node))\<rparr>"
  let ?W = "with_tx abc_db \<lparr>tx_root = db_root abc_db, tx_writable = True, tx_status = TxOpen\<rparr>"
  have h1: "txn rooms_node = None" by (simp add: rooms_node_def)
  have h2: "db_opened abc_db" by (simp add: abc_db_def)
  have cps: "create_path (db_root abc_db) (path rooms_node) = (None, db_root abc_db)"
    by code_simp
  have run: "counting ?m 0 ?W = (None, Suc 0, ?W)" by (simp add: counting_def)
  have runf: "failing (Failure ''inner'') ?m 0 ?W = (Some (Failure ''inner''), 0, ?W)"
    by (simp add: failing_def)
  note ok = C5_nested_TxUpdate [OF h1 h2, of counting 0]
  note ko = C5_nested_TxUpdate [OF h1 h2, of "failing (Failure ''inner'')" 0]
  from ok have n1: "TxUpdate rooms_node (\<lambda>m. TxUpdate m counting) 0 abc_db =
      TxUpdate rooms_node counting 0 abc_db" by blast
  from ok cps run have "TxUpdate rooms_node counting 0 abc_db =
     (if (None :: error option) = None
      then (None, Suc 0, with_tx (abc_db\<lparr>db_root := db_root abc_db\<rparr>)
              \<lparr>tx_root = db_root abc_db, tx_writable = True, tx_status = TxCommitted\<rparr>)
      else (None, Suc 0, with_tx abc_db
              \<lparr>tx_root = db_root abc_db, tx_writable = True, tx_status = TxRolledBack\<rparr>))"
    by blast
  with n1 have a: "TxUpdate rooms_node (\<lambda>m. TxUpdate m counting) 0 abc_db =
     (None, Suc 0,
      with_tx (abc_db\<lparr>db_root := db_root abc_db\<rparr>)
        \<lparr>tx_root = db_root abc_db, tx_writable = True, tx_status = TxCommitted\<rparr>)"
    by simp
  from ko have n2: "TxUpdate rooms_node (\<lambda>m. TxUpdate m (failing (Failure ''inner''))) 0 abc_db =
      TxUpdate rooms_node (failing (Failure ''inner'')) 0 abc_db" by blast
  from ko cps runf have "TxUpdate rooms_node (failing (Failure ''inner'')) 0 abc_db =
     (if Some (Failure ''inner'') = None
      then (None, 0, with_tx (abc_db\<lparr>db_root := db_root abc_db\<rparr>)
              \<lparr>tx_root = db_root abc_db, tx_writable = True, tx_status = TxCommitted\<rparr>)
      else (Some (Failure ''inner''), 0, with_tx abc_db
              \<lparr>tx_root = db_root abc_db, tx_writable = True, tx_status = TxRolledBack\<rparr>))"
    by blast
  with n2 have b: "TxUpdate rooms_node (\<lambda>m. TxUpdate m (failing (Failure ''inner''))) 0 abc_db =
     (Some (Failure ''inner''), 0,
      with_tx abc_db \<lparr>tx_root = db_root abc_db, tx_writable = True, tx_status = TxRolledBack\<rparr>)"
    by simp
  from h1 h2 a b show ?thesis by blast
qed

text \<open>
  C6: \<open>Each\<close> on a Node without a transaction whose bucket holds \<open>N\<close> leaf entries (nested
  buckets not counted), with a callback that logs its invocations. The invocations are on
  the first leaf keys in order, each with the count \<open>N\<close>; an invocation that returns an
  error is the last one, and \<open>Each\<close> then returns nil if the error is \<open>EachBreak\<close> and that
  error otherwise; if \<open>Each\<close> returns nil and no invocation returned an error, every leaf
  was visited; and when decoding never fails, the iteration ends only after the last leaf
  or at an invocation that returned an error.
\<close>

theorem C6_Each_visits:
  assumes "txn n = None" "db_opened w"
    and rs: "resolve (db_root w) (path n) = Some es"
    and run: "Each um n prefix (logging fn) (v, u, []) w = (err, (v', u', log), w')"
  shows "length log \<le> length (leaves es) \<and>
         map fst log = take (length log) (map fst (leaves es)) \<and>
         (\<forall>x \<in> set log. fst (snd x) = int (length (leaves es))) \<and>
         (\<forall>i < length log. \<forall>e. snd (snd (log ! i)) = Some e \<longrightarrow>
            Suc i = length log \<and> err = (if e = EachBreak then None else Some e)) \<and>
         (err = None \<and> (\<forall>x \<in> set log. snd (snd x) = None) \<longrightarrow>
            length log = length (leaves es)) \<and>
         ((\<forall>b v. fst (um b v) = None) \<longrightarrow>
            length log = length (leaves es) \<or> (log \<noteq> [] \<and> snd (snd (last log)) \<noteq> None))"
proof -
  let ?t = "length (db_txs w)"
  let ?m = "n\<lparr>txn := Some ?t, buck := None\<rparr>"
  let ?W = "with_tx w \<lparr>tx_root = db_root w, tx_writable = False, tx_status = TxOpen\<rparr>"
  let ?N = "int (length (leaves es))"
  obtain e1 s1 where loop: "Each_loop um (logging fn) ?N es (v, u, []) = (e1, s1)"
    by (cases "Each_loop um (logging fn) ?N es (v, u, [])")
  have nb: "Node_bucket ?m ?W = (Inr (?t, path n), ?m\<lparr>buck := Some (?t, path n)\<rparr>, ?W)"
    using rs by (simp add: Node_bucket_ro)
  have cl: "Each_closure um (logging fn) ?m (v, u, []) ?W = (e1, s1, ?W)"
    using nb loop rs
    by (simp add: Each_closure_def Cursor_entries_with_tx Each_count_leaves)
  from TxView_fresh_result [where f = "Each_closure um (logging fn)", OF assms(1,2) cl] run
  have "e1 = err" "s1 = (v', u', log)" by (simp_all add: Each_def)
  with loop have run': "Each_loop um (logging fn) ?N es (v, u, []) = (err, v', u', log)" by simp
  have ends: "(\<forall>b v. fst (um b v) = None) \<longrightarrow>
      length log = length (leaves es) \<or> (log \<noteq> [] \<and> snd (snd (last log)) \<noteq> None)"
  proof
    assume "\<forall>b v. fst (um b v) = None"
    from Each_loop_logging_ends [OF this run']
    show "length log = length (leaves es) \<or> (log \<noteq> [] \<and> snd (snd (last log)) \<noteq> None)"
      by simp
  qed
  from Each_loop_logging [OF run'] have "length log \<le> length (leaves es) \<and>
         map fst log = take (length log) (map fst (leaves es)) \<and>
         (\<forall>x \<in> set log. fst (snd x) = int (length (leaves es))) \<and>
         (\<forall>i < length log. \<forall>e. snd (snd (log ! i)) = Some e \<longrightarrow>
            Suc i = length log \<and> err = (if e = EachBreak then None else Some e)) \<and>
         (err = None \<and> (\<forall>x \<in> set log. snd (snd x) = None) \<longrightarrow>
            length log = length (leaves es))"
    by simp
  with ends show ?thesis by (elim conjE) (intro conjI; assumption)
qed

text \<open>C6, at sample data.\<close>

theorem C6_Each_visits_witness:
  "txn rooms_node = None \<and> db_opened abc_db \<and>
   Each (\<lambda>b v. (None, b)) rooms_node []
     (logging (\<lambda>k l s. (if k = ''b'' then Some EachBreak else None, s))) ('''', (), []) abc_db =
     (None, (''2'', (), [(''a'', 3, None), (''b'', 3, Some EachBreak)]),
      with_tx abc_db \<lparr>tx_root = db_root abc_db, tx_writable = False, tx_status = TxRolledBack\<rparr>) \<and>
   length [(''a'', 3 :: int, None), (''b'', 3, Some EachBreak)] \<le>
     length (leaves [(''a'', Leaf ''1''), (''b'', Leaf ''2''), (''c'', Leaf ''3'')]) \<and>
   map fst [(''a'', 3 :: int, None :: error option), (''b'', 3, Some EachBreak)] =
     take (length [(''a'', 3 :: int, None :: error option), (''b'', 3, Some EachBreak)])
       (map fst (leaves [(''a'', Leaf ''1''), (''b'', Leaf ''2''), (''c'', Leaf ''3'')]))"
proof -
  let ?es = "[(''a'', Leaf ''1''), (''b'', Leaf ''2''), (''c'', Leaf ''3'')]"
  let ?log = "[(''a'', 3 :: int, None), (''b'', 3, Some EachBreak)]"
  have h1: "txn rooms_node = None" by (simp add: rooms_node_def)
  have h2: "db_opened abc_db" by (simp add: abc_db_def)
  have rs: "resolve (db_root abc_db) (path rooms_node) = Some ?es" by code_simp
  have run: "Each (\<lambda>b v. (None, b)) rooms_node []
     (logging (\<lambda>k l s. (if k = ''b'' then Some EachBreak else None, s))) ('''', (), []) abc_db =
     (None, (''2'', (), ?log),
      with_tx abc_db \<lparr>tx_root = db_root abc_db, tx_writable = False, tx_status = TxRolledBack\<rparr>)"
    by code_simp
  from C6_Each_visits [OF h1 h2 rs run]
  have "length ?log \<le> length (leaves ?es) \<and>
      map fst ?log = take (length ?log) (map fst (leaves ?es))"
    by blast
  with h1 h2 run show ?thesis by blast
qed

text \<open>
  C7: if the codec fails to serialise the value, \<open>Set\<close> returns the encode error
  (wrapped) and the database is unchanged: no transaction is begun, no bucket created, no
  entry written.
\<close>

theorem C7_Set_encode_error:
  "marshal v = Inl err \<Longrightarrow> Set marshal n k v w = (Some (Wrap err ''failed to marshal''), w)"
  by (simp add: Set_def)

text \<open>C7, at sample data.\<close>

theorem C7_Set_encode_error_witness:
  "Set (\<lambda>v. if v = (0::nat) then Inl (Failure ''unsupported value'') else Inr ''1'')
     \<lparr>txn = None, buck = None, path = [''rooms'']\<rparr> ''k'' 0
     \<lparr>db_opened = True, db_root = [], db_txs = []\<rparr> =
   (Some (Wrap (Failure ''unsupported value'') ''failed to marshal''),
    \<lparr>db_opened = True, db_root = [], db_txs = []\<rparr>)"
  using C7_Set_encode_error
    [of "\<lambda>v. if v = (0::nat) then Inl (Failure ''unsupported value'') else Inr ''1''" 0
        "Failure ''unsupported value''"]
  by simp

text \<open>
  C8: \<open>SetIfNone\<close> on a Node without a transaction. If the bucket holds a value under
  the sanitised key, the committed state is unchanged and, for a value the codec
  serialises, the call succeeds; if it holds none (or the bucket does not exist), the
  committed state is the one \<open>Set\<close> gives and, for a value the codec serialises, the
  whole result is the result of \<open>Set\<close>: the same error and the same database.
\<close>

theorem C8_SetIfNone:
  assumes "txn n = None" "db_opened w" "wf_bucket (db_root w)"
  shows "(\<forall>c old. resolve (db_root w) (path n) = Some c \<and> get_leaf c (mustKey k) = Some old \<longrightarrow>
            db_root (snd (SetIfNone marshal n k v w)) = db_root w \<and>
            (\<forall>bs. marshal v = Inr bs \<longrightarrow> fst (SetIfNone marshal n k v w) = None)) \<and>
         ((\<forall>c. resolve (db_root w) (path n) = Some c \<longrightarrow> get_leaf c (mustKey k) = None) \<longrightarrow>
            db_root (snd (SetIfNone marshal n k v w)) = db_root (snd (Set marshal n k v w)) \<and>
            (\<forall>bs. marshal v = Inr bs \<longrightarrow> SetIfNone marshal n k v w = Set marshal n k v w))"
proof (intro conjI allI impI, goal_cases)
  case (1 c old)
  then have rs: "resolve (db_root w) (path n) = Some c" and g: "get_leaf c (mustKey k) = Some old"
    by simp_all
  from g have m: "map_of c (mustKey k) = Some (Leaf old)"
    by (auto simp: get_leaf_def split: option.splits entry.splits)
  have cp: "create_path (db_root w) (path n) = (None, db_root w)"
    using assms(3) rs by (rule create_path_existing)
  show ?case
  proof (cases "marshal v")
    case (Inl err)
    then show ?thesis by (simp add: SetIfNone_def)
  next
    case (Inr bs)
    from SetIfNone_fresh [where marshal = marshal and v = v and k = k, OF assms(1,2) Inr cp rs] m
    show ?thesis by simp
  qed
next
  case (2 c old bs)
  then have rs: "resolve (db_root w) (path n) = Some c" and g: "get_leaf c (mustKey k) = Some old"
    by simp_all
  from g have m: "map_of c (mustKey k) = Some (Leaf old)"
    by (auto simp: get_leaf_def split: option.splits entry.splits)
  have cp: "create_path (db_root w) (path n) = (None, db_root w)"
    using assms(3) rs by (rule create_path_existing)
  from SetIfNone_fresh [where marshal = marshal and v = v and k = k, OF assms(1,2) 2(2) cp rs] m
  show ?case by simp
next
  case 3
  show ?case
  proof (cases "marshal v")
    case (Inl err)
    then show ?thesis by (simp add: SetIfNone_def Set_def)
  next
    case (Inr bs)
    obtain e r' where cp: "create_path (db_root w) (path n) = (e, r')"
      by (cases "create_path (db_root w) (path n)")
    show ?thesis
    proof (cases e)
      case (Some err)
      with cp assms Inr show ?thesis
        by (simp add: SetIfNone_def Set_def update_fails)
    next
      case None
      with cp have cp': "create_path (db_root w) (path n) = (None, r')" by simp
      let ?c = "case resolve (db_root w) (path n) of Some c \<Rightarrow> c | None \<Rightarrow> []"
      from create_path_resolves [OF cp'] have rs: "resolve r' (path n) = Some ?c" .
      from 3 have "get_leaf ?c (mustKey k) = None"
        by (auto simp: get_leaf_def split: option.splits)
      then have "\<forall>old. map_of ?c (mustKey k) \<noteq> Some (Leaf old)"
        by (auto simp: get_leaf_def split: option.splits entry.splits)
      with SetIfNone_fresh [where marshal = marshal and v = v and k = k, OF assms(1,2) Inr cp' rs]
        Set_fresh [where marshal = marshal and v = v and k = k, OF assms(1,2) Inr cp' rs]
      have "SetIfNone marshal n k v w = Set marshal n k v w"
        by (auto split: option.splits entry.splits)
      then show ?thesis by simp
    qed
  qed
next
  case (4 bs)
  obtain e r' where cp: "create_path (db_root w) (path n) = (e, r')"
    by (cases "create_path (db_root w) (path n)")
  show ?case
  proof (cases e)
    case (Some err)
    with cp assms 4(2) show ?thesis
      by (simp add: SetIfNone_def Set_def update_fails)
  next
    case None
    with cp have cp': "create_path (db_root w) (path n) = (None, r')" by simp
    let ?c = "case resolve (db_root w) (path n) of Some c \<Rightarrow> c | None \<Rightarrow> []"
    from create_path_resolves [OF cp'] have rs: "resolve r' (path n) = Some ?c" .
    from 4(1) have "get_leaf ?c (mustKey k) = None"
      by (auto simp: get_leaf_def split: option.splits)
    then have "\<forall>old. map_of ?c (mustKey k) \<noteq> Some (Leaf old)"
      by (auto simp: get_leaf_def split: option.splits entry.splits)
    with SetIfNone_fresh [where marshal = marshal and v = v and k = k, OF assms(1,2) 4(2) cp' rs]
      Set_fresh [where marshal = marshal and v = v and k = k, OF assms(1,2) 4(2) cp' rs]
    show ?thesis by (auto split: option.splits entry.splits)
  qed
qed

text \<open>C8, at sample data.\<close>

theorem C8_SetIfNone_witness:
  "txn rooms_node = None \<and> db_opened abc_db \<and> wf_bucket (db_root abc_db) \<and>
   fst (SetIfNone Inr rooms_node ''a'' ''9'' abc_db) = None \<and>
   db_root (snd (SetIfNone Inr rooms_node ''a'' ''9'' abc_db)) = db_root abc_db \<and>
   SetIfNone Inr rooms_node ''z'' ''9'' abc_db = Set Inr rooms_node ''z'' ''9'' abc_db"
proof -
  let ?es = "[(''a'', Leaf ''1''), (''b'', Leaf ''2''), (''c'', Leaf ''3'')]"
  have h1: "txn rooms_node = None" by (simp add: rooms_node_def)
  have h2: "db_opened abc_db" by (simp add: abc_db_def)
  have h3: "wf_bucket (db_root abc_db)" by code_simp
  have h4: "(Inr :: bytes \<Rightarrow> error + bytes) ''9'' = Inr ''9''" by simp
  have rs: "resolve (db_root abc_db) (path rooms_node) = Some ?es" by code_simp
  have present: "get_leaf ?es (mustKey ''a'') = Some ''1''" by code_simp
  have "get_leaf ?es (mustKey ''z'') = None" by code_simp
  with rs have absent:
    "\<forall>c. resolve (db_root abc_db) (path rooms_node) = Some c \<longrightarrow> get_leaf c (mustKey ''z'') = None"
    by simp
  from C8_SetIfNone [where marshal = Inr and v = "''9''" and k = "''a''", OF h1 h2 h3]
    rs present h4
  have a: "fst (SetIfNone Inr rooms_node ''a'' ''9'' abc_db) = None \<and>
      db_root (snd (SetIfNone Inr rooms_node ''a'' ''9'' abc_db)) = db_root abc_db"
    by blast
  from C8_SetIfNone [where marshal = Inr and v = "''9''" and k = "''z''", OF h1 h2 h3] absent h4
  have b: "SetIfNone Inr rooms_node ''z'' ''9'' abc_db = Set Inr rooms_node ''z'' ''9'' abc_db"
    by blast
  from h1 h2 h3 a b show ?thesis by blast
qed

text \<open>
  C9, as stated, fails. After a successful \<open>Delete\<close> of the empty key, \<open>Exists\<close> of the
  empty key returns true: it reports the presence of the bucket. And \<open>Delete\<close> on a Node
  whose bucket does not exist changes the stored state: the writable transaction creates
  the bucket and commits it.
\<close>

theorem C9_cex_Delete:
  "fst (Delete \<lparr>txn = None, buck = None, path = [''rooms'']\<rparr> []
          \<lparr>db_opened = True, db_root = [(''rooms'', Sub [])], db_txs = []\<rparr>) = None \<and>
   fst (Exists \<lparr>txn = None, buck = None, path = [''rooms'']\<rparr> []
          (snd (Delete \<lparr>txn = None, buck = None, path = [''rooms'']\<rparr> []
                  \<lparr>db_opened = True, db_root = [(''rooms'', Sub [])], db_txs = []\<rparr>))) = True \<and>
   resolve [] [''rooms''] = None \<and>
   db_root (snd (Delete \<lparr>txn = None, buck = None, path = [''rooms'']\<rparr> ''k''
                   \<lparr>db_opened = True, db_root = [], db_txs = []\<rparr>)) \<noteq> []"
  by code_simp

text \<open>
  C9, amended: \<open>Delete\<close> on a Node without a transaction never fails on absence. If the
  bucket exists and holds nothing under the sanitised key, it succeeds and the committed
  state is unchanged. If the bucket does not exist and can be created, it succeeds and the
  committed state is the old one with the empty bucket created along the path: every
  bucket that existed still exists, with the same values. After a
  successful \<open>Delete\<close> of a key that sanitisation leaves as it is (non-empty, not a run of
  two or more null bytes), \<open>Exists\<close> of the key returns false; after a successful
  \<open>Delete\<close> of the empty key, \<open>Exists\<close> of the empty key returns true.
\<close>

theorem C9_Delete_idempotent:
  assumes "txn n = None" "db_opened w" "wf_bucket (db_root w)"
  shows "(\<forall>c. resolve (db_root w) (path n) = Some c \<and> map_of c (mustKey k) = None \<longrightarrow>
            fst (Delete n k w) = None \<and> db_root (snd (Delete n k w)) = db_root w) \<and>
         (\<forall>r'. resolve (db_root w) (path n) = None \<and>
               create_path (db_root w) (path n) = (None, r') \<longrightarrow>
            fst (Delete n k w) = None \<and> db_root (snd (Delete n k w)) = r' \<and>
            resolve r' (path n) = Some [] \<and>
            (\<forall>q c. resolve (db_root w) q = Some c \<longrightarrow>
               (\<exists>c'. resolve r' q = Some c' \<and> leaves c' = leaves c))) \<and>
         (fst (Delete n k w) = None \<and> k \<noteq> [] \<and> \<not> (all_null k \<and> length k \<ge> 2) \<longrightarrow>
            fst (Exists n k (snd (Delete n k w))) = False) \<and>
         (fst (Delete n k w) = None \<and> k = [] \<longrightarrow>
            fst (Exists n k (snd (Delete n k w))) = True)"
proof (intro conjI allI impI)
  fix c
  assume h: "resolve (db_root w) (path n) = Some c \<and> map_of c (mustKey k) = None"
  then have rs: "resolve (db_root w) (path n) = Some c" and m: "map_of c (mustKey k) = None"
    by simp_all
  have cp: "create_path (db_root w) (path n) = (None, db_root w)"
    using assms(3) rs by (rule create_path_existing)
  have same: "put_at (db_root w) (path n) c = db_root w"
    using assms(3) rs by (rule put_at_same)
  from Delete_fresh [OF assms(1,2) cp rs, of k] m
  show "fst (Delete n k w) = None" by simp
  from Delete_fresh [OF assms(1,2) cp rs, of k] m same
  show "db_root (snd (Delete n k w)) = db_root w" by simp
next
  fix r'
  assume h: "resolve (db_root w) (path n) = None \<and> create_path (db_root w) (path n) = (None, r')"
  then have no: "resolve (db_root w) (path n) = None"
    and cp: "create_path (db_root w) (path n) = (None, r')" by simp_all
  from create_path_resolves [OF cp] no have rs: "resolve r' (path n) = Some []" by simp
  have "wf_bucket r'" using assms(3) cp by (rule create_path_wf)
  then have same: "put_at r' (path n) [] = r'" using rs by (rule put_at_same)
  from Delete_fresh [OF assms(1,2) cp rs, of k]
  show "fst (Delete n k w) = None" by simp
  from Delete_fresh [OF assms(1,2) cp rs, of k] same
  show "db_root (snd (Delete n k w)) = r'" by simp
  from rs show "resolve r' (path n) = Some []" .
  fix q c
  assume "resolve (db_root w) q = Some c"
  with cp show "\<exists>c'. resolve r' q = Some c' \<and> leaves c' = leaves c"
    by (rule create_path_keeps_leaves)
next
  assume h: "fst (Delete n k w) = None \<and> k \<noteq> [] \<and> \<not> (all_null k \<and> length k \<ge> 2)"
  then have ok: "fst (Delete n k w) = None" and fixed: "mustKey k = k" and ne: "k \<noteq> []"
    by (simp_all add: mustKey_fixed)
  obtain e r' where cp: "create_path (db_root w) (path n) = (e, r')"
    by (cases "create_path (db_root w) (path n)")
  from ok cp assms have e: "e = None"
    by (cases e) (simp_all add: Delete_def update_fails)
  with cp have cp': "create_path (db_root w) (path n) = (None, r')" by simp
  let ?c = "case resolve (db_root w) (path n) of Some c \<Rightarrow> c | None \<Rightarrow> []"
  from create_path_resolves [OF cp'] have rs: "resolve r' (path n) = Some ?c" .
  note del = Delete_fresh [OF assms(1,2) cp' rs, of k]
  show "fst (Exists n k (snd (Delete n k w))) = False"
  proof (cases "map_of ?c k")
    case None
    with del fixed assms ne show ?thesis
      by (simp add: Exists_fresh resolve_put_at [OF rs] get_leaf_def)
  next
    case (Some x)
    show ?thesis
    proof (cases x)
      case (Leaf old)
      with Some del fixed assms ne show ?thesis
        by (simp add: Exists_fresh resolve_put_at [OF rs] get_leaf_remove_key)
    next
      case (Sub d)
      with Some del fixed ok show ?thesis by simp
    qed
  qed
next
  assume h: "fst (Delete n k w) = None \<and> k = []"
  then have ok: "fst (Delete n k w) = None" by (rule conjunct1)
  from h have k: "k = []" by (rule conjunct2)
  obtain e r' where cp: "create_path (db_root w) (path n) = (e, r')"
    by (cases "create_path (db_root w) (path n)")
  from ok cp assms have e: "e = None"
    by (cases e) (simp_all add: Delete_def update_fails)
  with cp have cp': "create_path (db_root w) (path n) = (None, r')" by simp
  let ?c = "case resolve (db_root w) (path n) of Some c \<Rightarrow> c | None \<Rightarrow> []"
  from create_path_resolves [OF cp'] have rs: "resolve r' (path n) = Some ?c" .
  note del = Delete_fresh [OF assms(1,2) cp' rs, of k]
  show "fst (Exists n k (snd (Delete n k w))) = True"
  proof (cases "map_of ?c (mustKey k)")
    case None
    with del k assms show ?thesis
      by (simp add: Exists_fresh resolve_put_at [OF rs])
  next
    case (Some x)
    show ?thesis
    proof (cases x)
      case (Leaf old)
      with Some del k assms show ?thesis
        by (simp add: Exists_fresh resolve_put_at [OF rs])
    next
      case (Sub d)
      with Some del ok show ?thesis by simp
    qed
  qed
qed

text \<open>C9, at sample data.\<close>

theorem C9_Delete_idempotent_witness:
  "txn rooms_node = None \<and> db_opened abc_db \<and> wf_bucket (db_root abc_db) \<and>
   fst (Delete rooms_node ''z'' abc_db) = None \<and>
   db_root (snd (Delete rooms_node ''z'' abc_db)) = db_root abc_db \<and>
   fst (Delete (rooms_node\<lparr>path := [''users'']\<rparr>) ''z'' abc_db) = None \<and>
   db_root (snd (Delete (rooms_node\<lparr>path := [''users'']\<rparr>) ''z'' abc_db)) =
     db_root abc_db @ [(''users'', Sub [])] \<and>
   fst (Exists rooms_node ''a'' (snd (Delete rooms_node ''a'' abc_db))) = False \<and>
   fst (Exists rooms_node [] (snd (Delete rooms_node [] abc_db))) = True"
proof -
  let ?es = "[(''a'', Leaf ''1''), (''b'', Leaf ''2''), (''c'', Leaf ''3'')]"
  let ?users = "rooms_node\<lparr>path := [''users'']\<rparr>"
  have h1: "txn rooms_node = None" by (simp add: rooms_node_def)
  have u1: "txn ?users = None" by (simp add: rooms_node_def)
  have h2: "db_opened abc_db" by (simp add: abc_db_def)
  have h3: "wf_bucket (db_root abc_db)" by code_simp
  have rs: "resolve (db_root abc_db) (path rooms_node) = Some ?es" by code_simp
  have lacks: "map_of ?es (mustKey ''z'') = None" by code_simp
  have missing: "resolve (db_root abc_db) (path ?users) = None" by code_simp
  have created: "create_path (db_root abc_db) (path ?users) =
      (None, db_root abc_db @ [(''users'', Sub [])])" by code_simp
  have ok: "fst (Delete rooms_node ''a'' abc_db) = None" by code_simp
  have plain: "''a'' \<noteq> [] \<and> \<not> (all_null ''a'' \<and> length ''a'' \<ge> 2)" by simp
  have ok0: "fst (Delete rooms_node [] abc_db) = None" by code_simp
  from C9_Delete_idempotent [OF h1 h2 h3, of "''z''"] rs lacks
  have a: "fst (Delete rooms_node ''z'' abc_db) = None \<and>
      db_root (snd (Delete rooms_node ''z'' abc_db)) = db_root abc_db"
    by blast
  from C9_Delete_idempotent [OF u1 h2 h3, of "''z''"] missing created
  have b: "fst (Delete ?users ''z'' abc_db) = None \<and>
      db_root (snd (Delete ?users ''z'' abc_db)) = db_root abc_db @ [(''users'', Sub [])]"
    by blast
  from C9_Delete_idempotent [OF h1 h2 h3, of "''a''"] ok plain
  have c: "fst (Exists rooms_node ''a'' (snd (Delete rooms_node ''a'' abc_db))) = False"
    by blast
  from C9_Delete_idempotent [OF h1 h2 h3, of "[]"] ok0
  have d: "fst (Exists rooms_node [] (snd (Delete rooms_node [] abc_db))) = True"
    by blast
  from h1 h2 h3 a b c d show ?thesis by blast
qed

text \<open>
  C10: the prefix given to \<open>Each\<close>, \<open>EachKey\<close> and \<open>Length\<close> has no effect: any two
  prefixes give the same result. With the prefix \<open>zz\<close>, the keys \<open>a\<close>, \<open>b\<close> and \<open>c\<close> are
  all counted and visited.
\<close>

theorem C10_prefix_ignored:
  "Each um n p1 fn s w = Each um n p2 fn s w \<and>
   EachKey n p1 fn' s' w = EachKey n p2 fn' s' w \<and>
   Length n p1 w = Length n p2 w \<and>
   fst (Length rooms_node ''zz'' abc_db) = (3, None) \<and>
   fst (snd (EachKey rooms_node ''zz'' (\<lambda>k l ks. (None, ks @ [(k, l)])) [] abc_db)) =
     [(''a'', 3), (''b'', 3), (''c'', 3)] \<and>
   snd (fst (snd (Each (\<lambda>b v. (None, b)) rooms_node ''zz''
                    (\<lambda>k l s. (None, fst s, snd s @ [(k, l)])) ('''', []) abc_db))) =
     [(''a'', 3), (''b'', 3), (''c'', 3)]"
proof -
  have 1: "Each um n p1 fn s w = Each um n p2 fn s w" by (simp add: Each_def)
  have 2: "EachKey n p1 fn' s' w = EachKey n p2 fn' s' w" by (simp add: EachKey_def)
  have 3: "Length n p1 w = Length n p2 w" by (simp add: Length_def)
  have 4: "fst (Length rooms_node ''zz'' abc_db) = (3, None)" by code_simp
  have 5: "fst (snd (EachKey rooms_node ''zz'' (\<lambda>k l ks. (None, ks @ [(k, l)])) [] abc_db)) =
     [(''a'', 3), (''b'', 3), (''c'', 3)]" by code_simp
  have 6: "snd (fst (snd (Each (\<lambda>b v. (None, b)) rooms_node ''zz''
                    (\<lambda>k l s. (None, fst s, snd s @ [(k, l)])) ('''', []) abc_db))) =
     [(''a'', 3), (''b'', 3), (''c'', 3)]" by code_simp
  from 1 2 3 4 5 6 show ?thesis by blast
qed

end
